theory Spec2Isabelle
  imports Complex_Main "HOL-Library.Word" "HOL-Library.Monad_Syntax"
begin

unbundle bit_operations_syntax

section \<open>Enumerations and machine types of cgltf.h\<close>

text \<open>
  \<open>cgltf_size\<close> is \<open>size_t\<close>; the model fixes it at 64 bits. Arithmetic on it wraps
  around, as unsigned arithmetic does in C.
\<close>

type_synonym cgltf_size = "64 word"
type_synonym byte = "8 word"

datatype cgltf_file_type =
  cgltf_file_type_invalid | cgltf_file_type_gltf | cgltf_file_type_glb

datatype cgltf_result =
  cgltf_result_success
| cgltf_result_data_too_short
| cgltf_result_unknown_format
| cgltf_result_invalid_json
| cgltf_result_invalid_gltf
| cgltf_result_invalid_options
| cgltf_result_file_not_found
| cgltf_result_io_error
| cgltf_result_out_of_memory

datatype cgltf_component_type =
  cgltf_component_type_invalid
| cgltf_component_type_r_8
| cgltf_component_type_r_8u
| cgltf_component_type_r_16
| cgltf_component_type_r_16u
| cgltf_component_type_r_32u
| cgltf_component_type_r_32f

datatype cgltf_type =
  cgltf_type_invalid
| cgltf_type_scalar
| cgltf_type_vec2
| cgltf_type_vec3
| cgltf_type_vec4
| cgltf_type_mat2
| cgltf_type_mat3
| cgltf_type_mat4

section \<open>Element geometry\<close>

fun cgltf_num_components :: "cgltf_type \<Rightarrow> cgltf_size" where
  "cgltf_num_components cgltf_type_vec2 = 2"
| "cgltf_num_components cgltf_type_vec3 = 3"
| "cgltf_num_components cgltf_type_vec4 = 4"
| "cgltf_num_components cgltf_type_mat2 = 4"
| "cgltf_num_components cgltf_type_mat3 = 9"
| "cgltf_num_components cgltf_type_mat4 = 16"
| "cgltf_num_components cgltf_type_invalid = 1"
| "cgltf_num_components cgltf_type_scalar = 1"

fun cgltf_component_size :: "cgltf_component_type \<Rightarrow> cgltf_size" where
  "cgltf_component_size cgltf_component_type_r_8 = 1"
| "cgltf_component_size cgltf_component_type_r_8u = 1"
| "cgltf_component_size cgltf_component_type_r_16 = 2"
| "cgltf_component_size cgltf_component_type_r_16u = 2"
| "cgltf_component_size cgltf_component_type_r_32u = 4"
| "cgltf_component_size cgltf_component_type_r_32f = 4"
| "cgltf_component_size cgltf_component_type_invalid = 0"

definition cgltf_calc_size :: "cgltf_type \<Rightarrow> cgltf_component_type \<Rightarrow> cgltf_size" where
  "cgltf_calc_size type component_type =
     (let component_size = cgltf_component_size component_type in
      if type = cgltf_type_mat2 \<and> component_size = 1 then 8 * component_size
      else if type = cgltf_type_mat3 \<and> (component_size = 1 \<or> component_size = 2)
        then 12 * component_size
      else component_size * cgltf_num_components type)"

section \<open>Buffer memory\<close>

text \<open>
  A loaded buffer is the array of its bytes; an address is an offset into it. Reading
  outside the array is undefined behaviour in C and \<open>None\<close> in the model. Values of
  several bytes are read little-endian: the source casts the byte pointer to the integer
  type, which gives the glTF value on a little-endian host only.
\<close>

definition read_u8 :: "byte list \<Rightarrow> nat \<Rightarrow> 8 word option" where
  "read_u8 mem p = (if p < length mem then Some (mem ! p) else None)"

definition read_u16 :: "byte list \<Rightarrow> nat \<Rightarrow> 16 word option" where
  "read_u16 mem p =
     (if p + 2 \<le> length mem
      then Some (ucast (mem ! p) OR push_bit 8 (ucast (mem ! (p + 1))))
      else None)"

definition read_u32 :: "byte list \<Rightarrow> nat \<Rightarrow> 32 word option" where
  "read_u32 mem p =
     (if p + 4 \<le> length mem
      then Some (ucast (mem ! p) OR push_bit 8 (ucast (mem ! (p + 1)))
                 OR push_bit 16 (ucast (mem ! (p + 2)))
                 OR push_bit 24 (ucast (mem ! (p + 3))))
      else None)"

section \<open>Floats\<close>

text \<open>
  A \<open>cgltf_float\<close> is a C \<open>float\<close>. The model records how the value was obtained
  and leaves the rounding of the conversion and of the division to the platform:
  \<open>Float_bits w\<close> is the float stored in the four bytes \<open>w\<close>, \<open>Float_quot a b\<close> is
  \<open>(float) a / (float) b\<close>, and \<open>Float_of_size n\<close> is \<open>(cgltf_float) n\<close> for a
  \<open>cgltf_size\<close>.
\<close>

datatype cgltf_float =
  Float_bits "32 word"
| Float_quot int int
| Float_of_size cgltf_size

text \<open>The number an IEEE 754 binary32 pattern stands for; infinities and NaNs have none.\<close>

definition f32_value :: "32 word \<Rightarrow> real option" where
  "f32_value w =
     (let sign = (if bit w 31 then - 1 else 1 :: real);
          e = unat (drop_bit 23 w AND 0xFF);
          m = unat (w AND 0x7FFFFF)
      in if e = 255 then None
         else if e = 0 then Some (sign * real m / 2 ^ 149)
         else if e < 150 then Some (sign * real (2 ^ 23 + m) / 2 ^ (150 - e))
         else Some (sign * real (2 ^ 23 + m) * 2 ^ (e - 150)))"

text \<open>The exact value of a float expression, before rounding.\<close>

fun float_value :: "cgltf_float \<Rightarrow> real option" where
  "float_value (Float_bits w) = f32_value w"
| "float_value (Float_quot a b) = Some (real_of_int a / real_of_int b)"
| "float_value (Float_of_size n) = Some (real (unat n))"

text \<open>
  Modelled from the spec: the limits of \<open>limits.h\<close>, a system header that is not part of
  the repository. The spec (section 4.5) names the divisors of the normalized conversion
  \<open>UINT_MAX\<close>, \<open>INT16_MAX\<close>, \<open>UINT16_MAX\<close> and \<open>INT8_MAX\<close>, and fixes the one
  for unsigned bytes, \<open>CHAR_MAX\<close> in the source, at 127: plain \<open>char\<close> is signed.
\<close>

definition UINT_MAX :: int where "UINT_MAX = 4294967295"
definition SHRT_MAX :: int where "SHRT_MAX = 32767"
definition USHRT_MAX :: int where "USHRT_MAX = 65535"
definition SCHAR_MAX :: int where "SCHAR_MAX = 127"
definition CHAR_MAX :: int where "CHAR_MAX = 127"

section \<open>The object graph\<close>

text \<open>
  A reference field of the graph is a C pointer. The decoder stores the integer
  \<open>index + 1\<close> in it (\<open>CGLTF_PTRINDEX\<close>), so that 0 is the null pointer; the fixup
  replaces it by the address of an element of the owning array. \<open>Encoded v\<close> is a pointer
  slot holding the integer \<open>v\<close>, \<open>Resolved k\<close> the address of element \<open>k\<close> of the array
  the field points into.
\<close>

datatype cgltf_ptr = Encoded cgltf_size | Resolved nat

abbreviation NULL :: cgltf_ptr where "NULL \<equiv> Encoded 0"

text \<open>
  Following a pointer: defined for the address of an existing element only. A null
  pointer and a slot that still holds an encoded index cannot be followed.
\<close>

fun deref :: "'a list \<Rightarrow> cgltf_ptr \<Rightarrow> 'a option" where
  "deref xs (Resolved k) = (if k < length xs then Some (xs ! k) else None)"
| "deref xs (Encoded v) = None"

text \<open>
  The records keep the fields that parsing, fixup, validation and the accessor readers
  use. An array and its count field are one list; the arrays of samplers, cameras and
  lights, whose elements hold no reference, are kept as their counts.
\<close>

record cgltf_extras =
  start_offset :: cgltf_size
  end_offset :: cgltf_size

record cgltf_buffer =
  buffer_size :: cgltf_size
  buffer_data :: "byte list option"

record cgltf_buffer_view =
  bv_buffer :: cgltf_ptr
  bv_offset :: cgltf_size
  bv_size :: cgltf_size
  bv_stride :: cgltf_size

record cgltf_accessor_sparse =
  sparse_count :: cgltf_size
  indices_buffer_view :: cgltf_ptr
  indices_byte_offset :: cgltf_size
  indices_component_type :: cgltf_component_type
  values_buffer_view :: cgltf_ptr
  values_byte_offset :: cgltf_size

record cgltf_accessor =
  acc_component_type :: cgltf_component_type
  acc_normalized :: bool
  acc_type :: cgltf_type
  acc_offset :: cgltf_size
  acc_count :: cgltf_size
  acc_stride :: cgltf_size
  acc_buffer_view :: cgltf_ptr
  acc_is_sparse :: bool
  acc_sparse :: cgltf_accessor_sparse

record cgltf_attribute =
  attr_name :: string
  attr_data :: cgltf_ptr

record cgltf_image =
  img_buffer_view :: cgltf_ptr

record cgltf_texture =
  tex_image :: cgltf_ptr
  tex_sampler :: cgltf_ptr

record cgltf_texture_view =
  tv_texture :: cgltf_ptr

record cgltf_pbr_metallic_roughness =
  base_color_texture :: cgltf_texture_view
  metallic_roughness_texture :: cgltf_texture_view

record cgltf_pbr_specular_glossiness =
  diffuse_texture :: cgltf_texture_view
  specular_glossiness_texture :: cgltf_texture_view

record cgltf_material =
  pbr_metallic_roughness :: cgltf_pbr_metallic_roughness
  pbr_specular_glossiness :: cgltf_pbr_specular_glossiness
  normal_texture :: cgltf_texture_view
  occlusion_texture :: cgltf_texture_view
  emissive_texture :: cgltf_texture_view

record cgltf_morph_target =
  target_attributes :: "cgltf_attribute list"

record cgltf_primitive =
  prim_indices :: cgltf_ptr
  prim_material :: cgltf_ptr
  prim_attributes :: "cgltf_attribute list"
  prim_targets :: "cgltf_morph_target list"

record cgltf_mesh =
  mesh_primitives :: "cgltf_primitive list"
  mesh_weights :: "cgltf_float list option"

record cgltf_skin =
  skin_joints :: "cgltf_ptr list"
  skin_skeleton :: cgltf_ptr
  skin_inverse_bind_matrices :: cgltf_ptr

record cgltf_node =
  node_parent :: cgltf_ptr
  node_children :: "cgltf_ptr list"
  node_skin :: cgltf_ptr
  node_mesh :: cgltf_ptr
  node_camera :: cgltf_ptr
  node_light :: cgltf_ptr
  node_weights :: "cgltf_float list option"

record cgltf_scene =
  scene_nodes :: "cgltf_ptr list"

record cgltf_animation_sampler =
  samp_input :: cgltf_ptr
  samp_output :: cgltf_ptr

record cgltf_animation_channel =
  chan_sampler :: cgltf_ptr
  chan_target_node :: cgltf_ptr

record cgltf_animation =
  anim_samplers :: "cgltf_animation_sampler list"
  anim_channels :: "cgltf_animation_channel list"

record cgltf_data =
  file_type :: cgltf_file_type
  meshes :: "cgltf_mesh list"
  materials :: "cgltf_material list"
  accessors :: "cgltf_accessor list"
  buffer_views :: "cgltf_buffer_view list"
  buffers :: "cgltf_buffer list"
  images :: "cgltf_image list"
  textures :: "cgltf_texture list"
  samplers_count :: nat
  skins :: "cgltf_skin list"
  cameras_count :: nat
  lights_count :: nat
  nodes :: "cgltf_node list"
  scenes :: "cgltf_scene list"
  scene :: cgltf_ptr
  animations :: "cgltf_animation list"
  json :: "byte list"
  bin :: "byte list option"

section \<open>Component readers\<close>

text \<open>
  The conversion \<open>(cgltf_size) f\<close> of a float truncates towards zero and is undefined
  when the truncated value does not fit.
\<close>

definition float_to_size :: "32 word \<Rightarrow> cgltf_size option" where
  "float_to_size w =
     (case f32_value w of
        None \<Rightarrow> None
      | Some v \<Rightarrow> if - 1 < v \<and> v < 2 ^ 64 then Some (word_of_nat (nat \<lfloor>v\<rfloor>)) else None)"

fun cgltf_component_read_index ::
  "byte list \<Rightarrow> nat \<Rightarrow> cgltf_component_type \<Rightarrow> cgltf_size option" where
  "cgltf_component_read_index mem p cgltf_component_type_r_16 = map_option scast (read_u16 mem p)"
| "cgltf_component_read_index mem p cgltf_component_type_r_16u = map_option ucast (read_u16 mem p)"
| "cgltf_component_read_index mem p cgltf_component_type_r_32u = map_option ucast (read_u32 mem p)"
| "cgltf_component_read_index mem p cgltf_component_type_r_32f =
     (case read_u32 mem p of None \<Rightarrow> None | Some w \<Rightarrow> float_to_size w)"
| "cgltf_component_read_index mem p cgltf_component_type_r_8 = map_option scast (read_u8 mem p)"
| "cgltf_component_read_index mem p cgltf_component_type_r_8u = map_option ucast (read_u8 mem p)"
| "cgltf_component_read_index mem p cgltf_component_type_invalid = map_option ucast (read_u8 mem p)"

definition cgltf_component_read_float ::
  "byte list \<Rightarrow> nat \<Rightarrow> cgltf_component_type \<Rightarrow> bool \<Rightarrow> cgltf_float option" where
  "cgltf_component_read_float mem p component_type normalized =
     (if component_type = cgltf_component_type_r_32f
      then map_option Float_bits (read_u32 mem p)
      else if normalized then
        (case component_type of
           cgltf_component_type_r_32u \<Rightarrow>
             map_option (\<lambda>w. Float_quot (uint w) UINT_MAX) (read_u32 mem p)
         | cgltf_component_type_r_16 \<Rightarrow>
             map_option (\<lambda>w. Float_quot (sint w) SHRT_MAX) (read_u16 mem p)
         | cgltf_component_type_r_16u \<Rightarrow>
             map_option (\<lambda>w. Float_quot (uint w) USHRT_MAX) (read_u16 mem p)
         | cgltf_component_type_r_8 \<Rightarrow>
             map_option (\<lambda>w. Float_quot (sint w) SCHAR_MAX) (read_u8 mem p)
         | _ \<Rightarrow>
             map_option (\<lambda>w. Float_quot (uint w) CHAR_MAX) (read_u8 mem p))
      else map_option Float_of_size (cgltf_component_read_index mem p component_type))"

text \<open>
  The statement \<open>out[i] = cgltf_component_read_float(element + off, ...)\<close>: a read
  through a null data pointer and a store outside \<open>out\<close> are undefined.
\<close>

definition store_component ::
  "byte list option \<Rightarrow> nat \<Rightarrow> cgltf_component_type \<Rightarrow> bool \<Rightarrow> cgltf_float list \<Rightarrow> nat
   \<Rightarrow> cgltf_float list option" where
  "store_component data p component_type normalized out i =
     (case data of
        None \<Rightarrow> None
      | Some mem \<Rightarrow>
          (case cgltf_component_read_float mem p component_type normalized of
             None \<Rightarrow> None
           | Some v \<Rightarrow> if i < length out then Some (out[i := v]) else None))"

text \<open>A run of such statements, each given as (index into \<open>out\<close>, byte offset from \<open>element\<close>).\<close>

fun read_components ::
  "byte list option \<Rightarrow> nat \<Rightarrow> cgltf_component_type \<Rightarrow> bool \<Rightarrow> (nat \<times> nat) list
   \<Rightarrow> cgltf_float list \<Rightarrow> cgltf_float list option" where
  "read_components data element component_type normalized [] out = Some out"
| "read_components data element component_type normalized ((i, off) # rest) out =
     (case store_component data (element + off) component_type normalized out i of
        None \<Rightarrow> None
      | Some out' \<Rightarrow> read_components data element component_type normalized rest out')"

definition cgltf_element_read_float ::
  "byte list option \<Rightarrow> nat \<Rightarrow> cgltf_type \<Rightarrow> cgltf_component_type \<Rightarrow> bool
   \<Rightarrow> cgltf_float list \<Rightarrow> cgltf_size \<Rightarrow> (bool \<times> cgltf_float list) option" where
  "cgltf_element_read_float data element type component_type normalized out element_size =
     (let num_components = cgltf_num_components type in
      if element_size < num_components then Some (False, out)
      else
        let component_size = cgltf_component_size component_type in
        if type = cgltf_type_mat2 \<and> component_size = 1 then
          map_option (Pair True)
            (read_components data element component_type normalized
               [(0, 0), (1, 1), (2, 4), (3, 5)] out)
        else if type = cgltf_type_mat3 \<and> component_size = 1 then
          map_option (Pair True)
            (read_components data element component_type normalized
               [(0, 0), (1, 1), (2, 2), (3, 4), (4, 5), (5, 6), (6, 8), (7, 9), (8, 10)] out)
        else if type = cgltf_type_mat3 \<and> component_size = 2 then
          map_option (Pair True)
            (read_components data element component_type normalized
               [(0, 0), (1, 2), (2, 4), (3, 8), (4, 10), (5, 12), (6, 16), (7, 18), (8, 20)] out)
        else
          map_option (Pair True)
            (read_components data element component_type normalized
               (map (\<lambda>i. (i, unat (component_size * word_of_nat i))) [0..<unat num_components])
               out))"

definition cgltf_accessor_read_float ::
  "cgltf_data \<Rightarrow> cgltf_accessor \<Rightarrow> cgltf_size \<Rightarrow> cgltf_float list \<Rightarrow> cgltf_size
   \<Rightarrow> (bool \<times> cgltf_float list) option" where
  "cgltf_accessor_read_float d accessor index out element_size =
     (if acc_is_sparse accessor \<or> acc_buffer_view accessor = NULL then Some (False, out)
      else
        (case deref (buffer_views d) (acc_buffer_view accessor) of
           None \<Rightarrow> None
         | Some bv \<Rightarrow>
             (case deref (buffers d) (bv_buffer bv) of
                None \<Rightarrow> None
              | Some buf \<Rightarrow>
                  let offset = acc_offset accessor + bv_offset bv;
                      element = unat (offset + acc_stride accessor * index)
                  in cgltf_element_read_float (buffer_data buf) element (acc_type accessor)
                       (acc_component_type accessor) (acc_normalized accessor) out
                       element_size)))"

text \<open>The graph right after \<open>memset(data, 0, sizeof(cgltf_data))\<close>.\<close>

definition cgltf_data_zero :: cgltf_data where
  "cgltf_data_zero =
     \<lparr> file_type = cgltf_file_type_invalid, meshes = [], materials = [], accessors = [],
       buffer_views = [], buffers = [], images = [], textures = [], samplers_count = 0,
       skins = [], cameras_count = 0, lights_count = 0, nodes = [], scenes = [],
       scene = NULL, animations = [], json = [], bin = None \<rparr>"

definition cgltf_accessor_sparse_zero :: cgltf_accessor_sparse where
  "cgltf_accessor_sparse_zero =
     \<lparr> sparse_count = 0, indices_buffer_view = NULL, indices_byte_offset = 0,
       indices_component_type = cgltf_component_type_invalid, values_buffer_view = NULL,
       values_byte_offset = 0 \<rparr>"

section \<open>Validation\<close>
















subsection \<open>Scenario: an accessor that overruns its buffer view\<close>





section \<open>Extras\<close>

text \<open>
  The destination of \<open>cgltf_copy_extras_json\<close> is the memory seen from the pointer
  \<open>dest\<close>: a map from offsets (modulo $2^{64}$) to bytes, of which the caller owns the
  first \<open>*dest_size\<close>. The source of the copy is the preserved JSON text; reading past its
  end is \<open>None\<close>.

  \<open>strncpy dest i src p n\<close> is the C library's \<open>strncpy(dest + i, src + p, n)\<close>: it
  copies bytes up to the first NUL of the source, at most \<open>n\<close>, and fills what is left of
  the \<open>n\<close> bytes with NULs.
\<close>

primrec fill_zero :: "(cgltf_size \<Rightarrow> byte) \<Rightarrow> nat \<Rightarrow> nat \<Rightarrow> (cgltf_size \<Rightarrow> byte)" where
  "fill_zero dest i 0 = dest"
| "fill_zero dest i (Suc n) = fill_zero (dest(word_of_nat i := 0)) (Suc i) n"

primrec strncpy ::
  "(cgltf_size \<Rightarrow> byte) \<Rightarrow> nat \<Rightarrow> byte list \<Rightarrow> nat \<Rightarrow> nat \<Rightarrow> (cgltf_size \<Rightarrow> byte) option" where
  "strncpy dest i src p 0 = Some dest"
| "strncpy dest i src p (Suc n) =
     (if p < length src then
        (if src ! p = 0 then Some (fill_zero dest i (Suc n))
         else strncpy (dest(word_of_nat i := src ! p)) (Suc i) src (Suc p) n)
      else None)"

text \<open>
  The result is the returned code with the destination memory and \<open>*dest_size\<close> after
  the call; \<open>None\<close> stands for a null pointer followed or a read outside the JSON text.
\<close>

definition cgltf_copy_extras_json ::
  "cgltf_data \<Rightarrow> cgltf_extras \<Rightarrow> (cgltf_size \<Rightarrow> byte) option \<Rightarrow> cgltf_size option
   \<Rightarrow> (cgltf_result \<times> (cgltf_size \<Rightarrow> byte) option \<times> cgltf_size option) option" where
  "cgltf_copy_extras_json d extras dest dest_size =
     (let json_size = end_offset extras - start_offset extras in
      case dest of
        None \<Rightarrow>
          (case dest_size of
             Some _ \<Rightarrow> Some (cgltf_result_success, None, Some (json_size + 1))
           | None \<Rightarrow> Some (cgltf_result_invalid_options, None, None))
      | Some m \<Rightarrow>
          (case dest_size of
             None \<Rightarrow> None
           | Some cap \<Rightarrow>
               if cap + 1 < json_size then
                 (case strncpy m 0 (json d) (unat (start_offset extras)) (unat (cap - 1)) of
                    None \<Rightarrow> None
                  | Some m' \<Rightarrow> Some (cgltf_result_success, Some (m'(cap - 1 := 0)), Some cap))
               else
                 (case strncpy m 0 (json d) (unat (start_offset extras)) (unat json_size) of
                    None \<Rightarrow> None
                  | Some m' \<Rightarrow> Some (cgltf_result_success, Some (m'(json_size := 0)), Some cap))))"

subsection \<open>Scenario: the extras \<open>true\<close> copied into four bytes\<close>

definition extras_scenario_data :: cgltf_data where
  \<open>extras_scenario_data = cgltf_data_zero \<lparr> json := map of_char ''{"extras":true}'' \<rparr>\<close>

definition extras_scenario_extras :: cgltf_extras where
  "extras_scenario_extras = \<lparr> start_offset = 10, end_offset = 14 \<rparr>"

section \<open>The JSON tokeniser (jsmn)\<close>

text \<open>
  The tokeniser is compiled with \<open>JSMN_PARENT_LINKS\<close> and without \<open>JSMN_STRICT\<close>.
  The input is the byte array \<open>js\<close> of length \<open>len\<close>; the token array and its capacity
  \<open>num_tokens\<close> are one list, and the null array of the counting pass is \<open>None\<close>.
  Positions are natural numbers: the source keeps them in \<open>unsigned int\<close> and \<open>int\<close>,
  which hold every position of an input shorter than $2^{31}$ bytes.
\<close>

datatype jsmntype_t =
  JSMN_UNDEFINED | JSMN_OBJECT | JSMN_ARRAY | JSMN_STRING | JSMN_PRIMITIVE

definition JSMN_ERROR_NOMEM :: int where "JSMN_ERROR_NOMEM = - 1"
definition JSMN_ERROR_INVAL :: int where "JSMN_ERROR_INVAL = - 2"
definition JSMN_ERROR_PART :: int where "JSMN_ERROR_PART = - 3"

record jsmntok_t =
  tok_type :: jsmntype_t
  tok_start :: int
  tok_end :: int
  tok_size :: int
  tok_parent :: int

record jsmn_parser =
  pos :: nat
  toknext :: nat
  toksuper :: int

abbreviation ch :: "char \<Rightarrow> byte" where "ch c \<equiv> of_char c"

definition jsmn_init :: jsmn_parser where
  "jsmn_init = \<lparr> pos = 0, toknext = 0, toksuper = - 1 \<rparr>"

text \<open>
  \<open>jsmn_alloc_token\<close>: \<open>None\<close> is the null result; otherwise the parser and the array
  after the allocation and the index of the fresh token.
\<close>

definition jsmn_alloc_token ::
  "jsmn_parser \<Rightarrow> jsmntok_t list \<Rightarrow> (jsmn_parser \<times> jsmntok_t list \<times> nat) option" where
  "jsmn_alloc_token parser tokens =
     (if toknext parser \<ge> length tokens then None
      else
        let t = toknext parser in
        Some (parser \<lparr> toknext := Suc t \<rparr>,
              tokens[t := (tokens ! t) \<lparr> tok_start := - 1, tok_end := - 1, tok_size := 0,
                                        tok_parent := - 1 \<rparr>],
              t))"

definition jsmn_fill_token :: "jsmntok_t \<Rightarrow> jsmntype_t \<Rightarrow> int \<Rightarrow> int \<Rightarrow> jsmntok_t" where
  "jsmn_fill_token token type start end' =
     token \<lparr> tok_type := type, tok_start := start, tok_end := end', tok_size := 0 \<rparr>"

text \<open>
  The scanning loop of \<open>jsmn_parse_primitive\<close> from position \<open>p\<close>: \<open>Some\<close> of the
  position at which the primitive ends (label \<open>found\<close>), \<open>None\<close> when a byte outside
  the printable range makes it return \<open>JSMN_ERROR_INVAL\<close>.
\<close>

definition prim_delimiter :: "byte \<Rightarrow> bool" where
  "prim_delimiter c =
     (c = ch CHR '':'' \<or> c = 0x09 \<or> c = 0x0D \<or> c = 0x0A \<or> c = ch CHR '' ''
      \<or> c = ch CHR '','' \<or> c = ch CHR '']'' \<or> c = ch CHR ''}'')"

function prim_scan :: "byte list \<Rightarrow> nat \<Rightarrow> nat option" where
  "prim_scan js p =
     (if p < length js \<and> js ! p \<noteq> 0 then
        (if prim_delimiter (js ! p) then Some p
         else if js ! p < 32 \<or> js ! p \<ge> 127 then None
         else prim_scan js (Suc p))
      else Some p)"
  by pat_completeness auto
termination
  by (relation "measure (\<lambda>(js, p). length js - p)") auto

declare prim_scan.simps [simp del]

definition jsmn_parse_primitive ::
  "jsmn_parser \<Rightarrow> byte list \<Rightarrow> jsmntok_t list option
   \<Rightarrow> int \<times> jsmn_parser \<times> jsmntok_t list option" where
  "jsmn_parse_primitive parser js tokens =
     (let start = pos parser in
      case prim_scan js start of
        None \<Rightarrow> (JSMN_ERROR_INVAL, parser \<lparr> pos := start \<rparr>, tokens)
      | Some e \<Rightarrow>
          (case tokens of
             None \<Rightarrow> (0, parser \<lparr> pos := e - 1 \<rparr>, None)
           | Some toks \<Rightarrow>
               (case jsmn_alloc_token parser toks of
                  None \<Rightarrow> (JSMN_ERROR_NOMEM, parser \<lparr> pos := start \<rparr>, tokens)
                | Some (parser1, toks1, t) \<Rightarrow>
                    (0, parser1 \<lparr> pos := e - 1 \<rparr>,
                     Some (toks1[t := (jsmn_fill_token (toks1 ! t) JSMN_PRIMITIVE (int start) (int e))
                                      \<lparr> tok_parent := toksuper parser1 \<rparr>])))))"

text \<open>
  The loop over the four hexadecimal digits after \<open>\u\<close>: \<open>Some\<close> of the position after
  the digits read (fewer than four when the input or the string ends), \<open>None\<close> at a byte
  that is no digit.
\<close>

definition hex_digit :: "byte \<Rightarrow> bool" where
  "hex_digit c = ((48 \<le> c \<and> c \<le> 57) \<or> (65 \<le> c \<and> c \<le> 70) \<or> (97 \<le> c \<and> c \<le> 102))"

fun hex_scan :: "byte list \<Rightarrow> nat \<Rightarrow> nat \<Rightarrow> nat option" where
  "hex_scan js p 0 = Some p"
| "hex_scan js p (Suc i) =
     (if p < length js \<and> js ! p \<noteq> 0 then
        (if hex_digit (js ! p) then hex_scan js (Suc p) i else None)
      else Some p)"

lemma hex_scan_mono: "hex_scan js p i = Some q \<Longrightarrow> p \<le> q"
proof (induction i arbitrary: p)
  case 0
  then show ?case by simp
next
  case (Suc i)
  then show ?case by (fastforce split: if_splits dest: Suc.IH)
qed

definition simple_escape :: "byte \<Rightarrow> bool" where
  "simple_escape c =
     (c = 0x22 \<or> c = ch CHR ''/'' \<or> c = 0x5C \<or> c = ch CHR ''b'' \<or> c = ch CHR ''f''
      \<or> c = ch CHR ''r'' \<or> c = ch CHR ''n'' \<or> c = ch CHR ''t'')"

text \<open>
  The scanning loop of \<open>jsmn_parse_string\<close> from position \<open>p\<close>, after the opening
  quote: \<open>Inr\<close> of the position of the closing quote, or \<open>Inl\<close> of the error returned.
\<close>

function string_scan :: "byte list \<Rightarrow> nat \<Rightarrow> int + nat" where
  "string_scan js p =
     (if p < length js \<and> js ! p \<noteq> 0 then
        (if js ! p = 0x22 then Inr p
         else if js ! p = 0x5C \<and> p + 1 < length js then
           (if simple_escape (js ! (p + 1)) then string_scan js (p + 2)
            else if js ! (p + 1) = ch CHR ''u'' then
              (case hex_scan js (p + 2) 4 of
                 None \<Rightarrow> Inl JSMN_ERROR_INVAL
               | Some q \<Rightarrow> string_scan js q)
            else Inl JSMN_ERROR_INVAL)
         else string_scan js (Suc p))
      else Inl JSMN_ERROR_PART)"
  by pat_completeness auto
termination
proof (relation "measure (\<lambda>(js, p). length js - p)")
  show "wf (measure (\<lambda>(js, p). length js - p))" by simp
next
  fix js :: "byte list" and p
  assume "p < length js \<and> js ! p \<noteq> 0"
  then show "((js, p + 2), (js, p)) \<in> measure (\<lambda>(js, p). length js - p)" by auto
next
  fix js :: "byte list" and p q
  assume "p < length js \<and> js ! p \<noteq> 0" and "hex_scan js (p + 2) 4 = Some q"
  then show "((js, q), (js, p)) \<in> measure (\<lambda>(js, p). length js - p)"
    using hex_scan_mono [of js "p + 2" 4 q] by auto
next
  fix js :: "byte list" and p
  assume "p < length js \<and> js ! p \<noteq> 0"
  then show "((js, Suc p), (js, p)) \<in> measure (\<lambda>(js, p). length js - p)" by auto
qed

declare string_scan.simps [simp del]

definition jsmn_parse_string ::
  "jsmn_parser \<Rightarrow> byte list \<Rightarrow> jsmntok_t list option
   \<Rightarrow> int \<times> jsmn_parser \<times> jsmntok_t list option" where
  "jsmn_parse_string parser js tokens =
     (let start = pos parser in
      case string_scan js (start + 1) of
        Inl err \<Rightarrow> (err, parser \<lparr> pos := start \<rparr>, tokens)
      | Inr e \<Rightarrow>
          (case tokens of
             None \<Rightarrow> (0, parser \<lparr> pos := e \<rparr>, None)
           | Some toks \<Rightarrow>
               (case jsmn_alloc_token parser toks of
                  None \<Rightarrow> (JSMN_ERROR_NOMEM, parser \<lparr> pos := start \<rparr>, tokens)
                | Some (parser1, toks1, t) \<Rightarrow>
                    (0, parser1 \<lparr> pos := e \<rparr>,
                     Some (toks1[t := (jsmn_fill_token (toks1 ! t) JSMN_STRING (int start + 1) (int e))
                                      \<lparr> tok_parent := toksuper parser1 \<rparr>])))))"

text \<open>
  The \<open>for (;;)\<close> loop that closes a bracket: it starts at the last token and follows
  the parent links to the first token that is still open. \<open>Inl\<close> is the error returned,
  \<open>Inr\<close> the token array and \<open>toksuper\<close> after the \<open>break\<close>. A parent link that does
  not lead to an earlier token of the array, under which the C loop reads outside the
  array or does not end, is \<open>None\<close>.
\<close>

function close_bracket ::
  "jsmntok_t list \<Rightarrow> jsmntype_t \<Rightarrow> nat \<Rightarrow> int \<Rightarrow> nat \<Rightarrow> (int + jsmntok_t list \<times> int) option" where
  "close_bracket tokens type p super i =
     (if i < length tokens then
        (if tok_start (tokens ! i) \<noteq> - 1 \<and> tok_end (tokens ! i) = - 1 then
           (if tok_type (tokens ! i) \<noteq> type then Some (Inl JSMN_ERROR_INVAL)
            else Some (Inr (tokens[i := (tokens ! i) \<lparr> tok_end := int p + 1 \<rparr>],
                            tok_parent (tokens ! i))))
         else if tok_parent (tokens ! i) = - 1 then
           (if tok_type (tokens ! i) \<noteq> type \<or> super = - 1 then Some (Inl JSMN_ERROR_INVAL)
            else Some (Inr (tokens, super)))
         else if 0 \<le> tok_parent (tokens ! i) \<and> tok_parent (tokens ! i) < int i then
           close_bracket tokens type p super (nat (tok_parent (tokens ! i)))
         else None)
      else None)"
  by pat_completeness auto
termination
  by (relation "measure (\<lambda>(tokens, type, p, super, i). i)") auto

declare close_bracket.simps [simp del]

text \<open>\<open>tokens[parser->toksuper].size++\<close>, done when there is a superior token and an array.\<close>

definition count_child :: "jsmn_parser \<Rightarrow> jsmntok_t list option \<Rightarrow> jsmntok_t list option" where
  "count_child parser tokens =
     (case tokens of
        None \<Rightarrow> None
      | Some toks \<Rightarrow>
          if toksuper parser \<noteq> - 1 then
            Some (toks[nat (toksuper parser) :=
                         (toks ! nat (toksuper parser))
                           \<lparr> tok_size := tok_size (toks ! nat (toksuper parser)) + 1 \<rparr>])
          else Some toks)"

text \<open>
  One turn of the loop of \<open>jsmn_parse\<close>, on the byte at \<open>pos\<close>: it returns from the
  function, or goes on to the increment of \<open>pos\<close> with a new parser, array and count.
  Each case of the \<open>switch\<close> is a definition of its own.
\<close>

datatype jsmn_step =
  Return int jsmn_parser "jsmntok_t list option"
| Continue jsmn_parser "jsmntok_t list option" int
| Stuck

definition case_open ::
  "byte \<Rightarrow> jsmn_parser \<Rightarrow> jsmntok_t list option \<Rightarrow> int \<Rightarrow> jsmn_step" where
  "case_open c parser tokens count =
     (case tokens of
        None \<Rightarrow> Continue parser None (count + 1)
      | Some toks \<Rightarrow>
          (case jsmn_alloc_token parser toks of
             None \<Rightarrow> Return JSMN_ERROR_NOMEM parser tokens
           | Some (parser1, toks1, t) \<Rightarrow>
               let toks2 =
                     (if toksuper parser1 \<noteq> - 1 then
                        (the (count_child parser1 (Some toks1)))
                          [t := (the (count_child parser1 (Some toks1)) ! t)
                                  \<lparr> tok_parent := toksuper parser1 \<rparr>]
                      else toks1);
                   toks3 = toks2[t := (toks2 ! t)
                             \<lparr> tok_type := (if c = ch CHR ''{'' then JSMN_OBJECT else JSMN_ARRAY),
                               tok_start := int (pos parser1) \<rparr>]
               in Continue (parser1 \<lparr> toksuper := int (toknext parser1) - 1 \<rparr>)
                    (Some toks3) (count + 1)))"

definition case_close ::
  "byte \<Rightarrow> jsmn_parser \<Rightarrow> jsmntok_t list option \<Rightarrow> int \<Rightarrow> jsmn_step" where
  "case_close c parser tokens count =
     (case tokens of
        None \<Rightarrow> Continue parser None count
      | Some toks \<Rightarrow>
          if toknext parser < 1 then Return JSMN_ERROR_INVAL parser tokens
          else
            (case close_bracket toks (if c = ch CHR ''}'' then JSMN_OBJECT else JSMN_ARRAY)
                    (pos parser) (toksuper parser) (toknext parser - 1) of
               None \<Rightarrow> Stuck
             | Some (Inl err) \<Rightarrow> Return err parser tokens
             | Some (Inr (toks1, super)) \<Rightarrow>
                 Continue (parser \<lparr> toksuper := super \<rparr>) (Some toks1) count))"

definition case_quote ::
  "byte list \<Rightarrow> jsmn_parser \<Rightarrow> jsmntok_t list option \<Rightarrow> int \<Rightarrow> jsmn_step" where
  "case_quote js parser tokens count =
     (case jsmn_parse_string parser js tokens of
        (r, parser1, tokens1) \<Rightarrow>
          if r < 0 then Return r parser1 tokens1
          else Continue parser1 (count_child parser1 tokens1) (count + 1))"

definition case_colon :: "jsmn_parser \<Rightarrow> jsmntok_t list option \<Rightarrow> int \<Rightarrow> jsmn_step" where
  "case_colon parser tokens count =
     Continue (parser \<lparr> toksuper := int (toknext parser) - 1 \<rparr>) tokens count"

definition case_comma :: "jsmn_parser \<Rightarrow> jsmntok_t list option \<Rightarrow> int \<Rightarrow> jsmn_step" where
  "case_comma parser tokens count =
     (case tokens of
        None \<Rightarrow> Continue parser None count
      | Some toks \<Rightarrow>
          if toksuper parser \<noteq> - 1
             \<and> tok_type (toks ! nat (toksuper parser)) \<noteq> JSMN_ARRAY
             \<and> tok_type (toks ! nat (toksuper parser)) \<noteq> JSMN_OBJECT
          then Continue (parser \<lparr> toksuper := tok_parent (toks ! nat (toksuper parser)) \<rparr>)
                 tokens count
          else Continue parser tokens count)"

definition case_default ::
  "byte list \<Rightarrow> jsmn_parser \<Rightarrow> jsmntok_t list option \<Rightarrow> int \<Rightarrow> jsmn_step" where
  "case_default js parser tokens count =
     (case jsmn_parse_primitive parser js tokens of
        (r, parser1, tokens1) \<Rightarrow>
          if r < 0 then Return r parser1 tokens1
          else Continue parser1 (count_child parser1 tokens1) (count + 1))"

definition jsmn_parse_step ::
  "byte list \<Rightarrow> jsmn_parser \<Rightarrow> jsmntok_t list option \<Rightarrow> int \<Rightarrow> jsmn_step" where
  "jsmn_parse_step js parser tokens count =
     (let c = js ! pos parser in
      if c = ch CHR ''{'' \<or> c = ch CHR ''['' then case_open c parser tokens count
      else if c = ch CHR ''}'' \<or> c = ch CHR '']'' then case_close c parser tokens count
      else if c = 0x22 then case_quote js parser tokens count
      else if c = 0x09 \<or> c = 0x0D \<or> c = 0x0A \<or> c = ch CHR '' '' then
        Continue parser tokens count
      else if c = ch CHR '':'' then case_colon parser tokens count
      else if c = ch CHR '','' then case_comma parser tokens count
      else case_default js parser tokens count)"

text \<open>What follows the loop: an object or array still open is \<open>JSMN_ERROR_PART\<close>.\<close>

definition jsmn_parse_end ::
  "jsmn_parser \<Rightarrow> jsmntok_t list option \<Rightarrow> int \<Rightarrow> int \<times> jsmn_parser \<times> jsmntok_t list option" where
  "jsmn_parse_end parser tokens count =
     (case tokens of
        None \<Rightarrow> (count, parser, None)
      | Some toks \<Rightarrow>
          if list_ex (\<lambda>t. tok_start t \<noteq> - 1 \<and> tok_end t = - 1) (take (toknext parser) toks)
          then (JSMN_ERROR_PART, parser, tokens)
          else (count, parser, tokens))"

lemma prim_scan_progress:
  "prim_scan js p = Some e \<Longrightarrow> p < length js \<Longrightarrow> js ! p \<noteq> 0 \<Longrightarrow> \<not> prim_delimiter (js ! p)
   \<Longrightarrow> p < e"
proof -
  have mono: "prim_scan js q = Some e \<Longrightarrow> q \<le> e" for q
  proof (induction js q rule: prim_scan.induct)
    case (1 js p)
    then show ?case
      by (subst (asm) (2) prim_scan.simps) (auto split: if_splits)
  qed
  assume a: "prim_scan js p = Some e" "p < length js" "js ! p \<noteq> 0" "\<not> prim_delimiter (js ! p)"
  then have "prim_scan js (Suc p) = Some e"
    by (subst (asm) prim_scan.simps) (auto split: if_splits)
  then have "Suc p \<le> e" by (rule mono)
  then show ?thesis by simp
qed

lemma string_scan_mono: "string_scan js p = Inr e \<Longrightarrow> p \<le> e"
proof (induction js p rule: string_scan.induct)
  case (1 js p)
  show ?case
  proof (cases "p < length js \<and> js ! p \<noteq> 0")
    case False
    with "1.prems" show ?thesis by (subst (asm) string_scan.simps) simp
  next
    case True
    show ?thesis
    proof (cases "js ! p = 0x22")
      case q: True
      with True "1.prems" show ?thesis by (subst (asm) string_scan.simps) simp
    next
      case q: False
      show ?thesis
      proof (cases "js ! p = 0x5C \<and> p + 1 < length js")
        case b: False
        with True q "1.prems" have "string_scan js (Suc p) = Inr e"
          by (subst (asm) string_scan.simps) (auto split: if_splits)
        with "1.IH"(3) True q b have "Suc p \<le> e" by blast
        then show ?thesis by simp
      next
        case b: True
        show ?thesis
        proof (cases "simple_escape (js ! (p + 1))")
          case s: True
          with True q b "1.prems" have "string_scan js (p + 2) = Inr e"
            by (subst (asm) string_scan.simps) (auto split: if_splits)
          with "1.IH"(1) True q b s have "p + 2 \<le> e" by blast
          then show ?thesis by simp
        next
          case s: False
          with True q b "1.prems" obtain r where
            u: "js ! (p + 1) = ch CHR ''u''" and h: "hex_scan js (p + 2) 4 = Some r"
            and r: "string_scan js r = Inr e"
            by (subst (asm) string_scan.simps) (auto split: if_splits option.splits)
          from "1.IH"(2) True q b s u h r have "r \<le> e" by blast
          moreover from h have "p + 2 \<le> r" by (rule hex_scan_mono)
          ultimately show ?thesis by simp
        qed
      qed
    qed
  qed
qed

lemma string_scan_error: "string_scan js p = Inl r \<Longrightarrow> r < 0"
proof (induction js p rule: string_scan.induct)
  case (1 js p)
  from "1.prems" have
    "(if p < length js \<and> js ! p \<noteq> 0 then
        (if js ! p = 0x22 then Inr p
         else if js ! p = 0x5C \<and> p + 1 < length js then
           (if simple_escape (js ! (p + 1)) then string_scan js (p + 2)
            else if js ! (p + 1) = ch CHR ''u'' then
              (case hex_scan js (p + 2) 4 of
                 None \<Rightarrow> Inl JSMN_ERROR_INVAL
               | Some q \<Rightarrow> string_scan js q)
            else Inl JSMN_ERROR_INVAL)
         else string_scan js (Suc p))
      else Inl JSMN_ERROR_PART) = Inl r"
    by (subst (asm) string_scan.simps)
  then show ?case
    using "1.IH"
    by (auto split: if_splits option.splits simp: JSMN_ERROR_INVAL_def JSMN_ERROR_PART_def)
qed

lemma case_open_pos: "case_open c parser tokens count = Continue p t n \<Longrightarrow> pos p = pos parser"
  by (auto simp: case_open_def jsmn_alloc_token_def Let_def split: option.splits if_splits)

lemma case_close_pos: "case_close c parser tokens count = Continue p t n \<Longrightarrow> pos p = pos parser"
  by (auto simp: case_close_def split: option.splits if_splits sum.splits)

lemma case_comma_pos: "case_comma parser tokens count = Continue p t n \<Longrightarrow> pos p = pos parser"
  by (auto simp: case_comma_def split: option.splits if_splits)

lemma case_quote_pos: "case_quote js parser tokens count = Continue p t n \<Longrightarrow> pos parser < pos p"
proof -
  assume a: "case_quote js parser tokens count = Continue p t n"
  then obtain r tk where ps: "jsmn_parse_string parser js tokens = (r, p, tk)" and r: "\<not> r < 0"
    by (auto simp: case_quote_def split: prod.splits if_splits)
  from ps r obtain e where e: "string_scan js (pos parser + 1) = Inr e" and pe: "pos p = e"
    by (auto simp: jsmn_parse_string_def Let_def JSMN_ERROR_NOMEM_def jsmn_alloc_token_def
        split: option.splits if_splits sum.splits dest: string_scan_error)
  from string_scan_mono [OF e] pe show ?thesis by simp
qed

lemma case_default_pos:
  assumes "case_default js parser tokens count = Continue p t n"
    and "pos parser < length js" and "js ! pos parser \<noteq> 0"
    and "\<not> prim_delimiter (js ! pos parser)"
  shows "pos parser \<le> pos p"
proof -
  from assms(1) obtain r tk where
    pp: "jsmn_parse_primitive parser js tokens = (r, p, tk)" and r: "\<not> r < 0"
    by (auto simp: case_default_def split: prod.splits if_splits)
  from pp r obtain e where e: "prim_scan js (pos parser) = Some e" and pe: "pos p = e - 1"
    by (auto simp: jsmn_parse_primitive_def Let_def JSMN_ERROR_INVAL_def
        JSMN_ERROR_NOMEM_def jsmn_alloc_token_def split: option.splits if_splits)
  from prim_scan_progress [OF e assms(2) assms(3) assms(4)] pe show ?thesis by simp
qed

lemma jsmn_parse_step_pos:
  assumes s: "jsmn_parse_step js parser tokens count = Continue p t n"
    and "pos parser < length js" and "js ! pos parser \<noteq> 0"
  shows "pos parser \<le> pos p"
proof -
  let ?c = "js ! pos parser"
  consider (open') "?c = ch CHR ''{'' \<or> ?c = ch CHR ''[''"
    | (close') "\<not> (?c = ch CHR ''{'' \<or> ?c = ch CHR ''['')" "?c = ch CHR ''}'' \<or> ?c = ch CHR '']''"
    | (quote) "\<not> (?c = ch CHR ''{'' \<or> ?c = ch CHR ''['')" "\<not> (?c = ch CHR ''}'' \<or> ?c = ch CHR '']'')"
        "?c = 0x22"
    | (space) "\<not> (?c = ch CHR ''{'' \<or> ?c = ch CHR ''['')" "\<not> (?c = ch CHR ''}'' \<or> ?c = ch CHR '']'')"
        "?c \<noteq> 0x22" "?c = 0x09 \<or> ?c = 0x0D \<or> ?c = 0x0A \<or> ?c = ch CHR '' ''"
    | (colon) "\<not> (?c = ch CHR ''{'' \<or> ?c = ch CHR ''['')" "\<not> (?c = ch CHR ''}'' \<or> ?c = ch CHR '']'')"
        "?c \<noteq> 0x22" "\<not> (?c = 0x09 \<or> ?c = 0x0D \<or> ?c = 0x0A \<or> ?c = ch CHR '' '')"
        "?c = ch CHR '':''"
    | (comma) "\<not> (?c = ch CHR ''{'' \<or> ?c = ch CHR ''['')" "\<not> (?c = ch CHR ''}'' \<or> ?c = ch CHR '']'')"
        "?c \<noteq> 0x22" "\<not> (?c = 0x09 \<or> ?c = 0x0D \<or> ?c = 0x0A \<or> ?c = ch CHR '' '')"
        "?c \<noteq> ch CHR '':''" "?c = ch CHR '',''"
    | (other) "\<not> (?c = ch CHR ''{'' \<or> ?c = ch CHR ''['')" "\<not> (?c = ch CHR ''}'' \<or> ?c = ch CHR '']'')"
        "?c \<noteq> 0x22" "\<not> (?c = 0x09 \<or> ?c = 0x0D \<or> ?c = 0x0A \<or> ?c = ch CHR '' '')"
        "?c \<noteq> ch CHR '':''" "?c \<noteq> ch CHR '',''"
    by blast
  then show ?thesis
  proof cases
    case open'
    then have "jsmn_parse_step js parser tokens count = case_open ?c parser tokens count"
      by (auto simp: jsmn_parse_step_def Let_def)
    with s case_open_pos show ?thesis by fastforce
  next
    case close'
    then have "jsmn_parse_step js parser tokens count = case_close ?c parser tokens count"
      by (auto simp: jsmn_parse_step_def Let_def)
    with s case_close_pos show ?thesis by fastforce
  next
    case quote
    then have "jsmn_parse_step js parser tokens count = case_quote js parser tokens count"
      by (auto simp: jsmn_parse_step_def Let_def)
    with s case_quote_pos show ?thesis by fastforce
  next
    case space
    then have "jsmn_parse_step js parser tokens count = Continue parser tokens count"
      by (auto simp: jsmn_parse_step_def Let_def)
    with s show ?thesis by simp
  next
    case colon
    then have "jsmn_parse_step js parser tokens count = case_colon parser tokens count"
      by (auto simp: jsmn_parse_step_def Let_def)
    with s show ?thesis by (auto simp: case_colon_def)
  next
    case comma
    then have "jsmn_parse_step js parser tokens count = case_comma parser tokens count"
      by (auto simp: jsmn_parse_step_def Let_def)
    with s case_comma_pos show ?thesis by fastforce
  next
    case other
    then have nd: "\<not> prim_delimiter ?c"
      unfolding prim_delimiter_def by blast
    from other have "jsmn_parse_step js parser tokens count = case_default js parser tokens count"
      by (auto simp: jsmn_parse_step_def Let_def)
    with s have "case_default js parser tokens count = Continue p t n" by simp
    from case_default_pos [OF this assms(2) assms(3) nd] show ?thesis .
  qed
qed

function jsmn_parse_loop ::
  "byte list \<Rightarrow> jsmn_parser \<Rightarrow> jsmntok_t list option \<Rightarrow> int
   \<Rightarrow> (int \<times> jsmn_parser \<times> jsmntok_t list option) option" where
  "jsmn_parse_loop js parser tokens count =
     (if pos parser < length js \<and> js ! pos parser \<noteq> 0 then
        (case jsmn_parse_step js parser tokens count of
           Return r parser1 tokens1 \<Rightarrow> Some (r, parser1, tokens1)
         | Continue parser1 tokens1 count1 \<Rightarrow>
             jsmn_parse_loop js (parser1 \<lparr> pos := Suc (pos parser1) \<rparr>) tokens1 count1
         | Stuck \<Rightarrow> None)
      else Some (jsmn_parse_end parser tokens count))"
  by pat_completeness auto
termination
proof (relation "measure (\<lambda>(js, parser, tokens, count). length js - pos parser)")
  show "wf (measure (\<lambda>(js, parser, tokens, count). length js - pos parser))" by simp
next
  fix js parser tokens count parser1 tokens1 count1
  assume c: "pos parser < length js \<and> js ! pos parser \<noteq> 0"
    and s: "jsmn_parse_step js parser tokens count = Continue parser1 tokens1 count1"
  from jsmn_parse_step_pos [OF s] c have "pos parser \<le> pos parser1" by simp
  with c show "((js, parser1 \<lparr> pos := Suc (pos parser1) \<rparr>, tokens1, count1),
                (js, parser, tokens, count))
               \<in> measure (\<lambda>(js, parser, tokens, count). length js - pos parser)"
    by auto
qed

declare jsmn_parse_loop.simps [simp del]

definition jsmn_parse ::
  "jsmn_parser \<Rightarrow> byte list \<Rightarrow> jsmntok_t list option
   \<Rightarrow> (int \<times> jsmn_parser \<times> jsmntok_t list option) option" where
  "jsmn_parse parser js tokens = jsmn_parse_loop js parser tokens (int (toknext parser))"

section \<open>Reference fixup\<close>

text \<open>
  The two macros. \<open>None\<close> is the \<open>return CGLTF_ERROR_JSON\<close> of the macro, \<open>Some\<close>
  the new value of the field. The fixup applies a macro to a field once, while the field
  still holds the decoder's encoding; on the address of an element the C comparison would
  be between a machine address and a count, and the model lets it fail.
\<close>

fun CGLTF_PTRFIXUP :: "cgltf_ptr \<Rightarrow> nat \<Rightarrow> cgltf_ptr option" where
  "CGLTF_PTRFIXUP (Encoded v) n =
     (if v \<noteq> 0 then (if unat v > n then None else Some (Resolved (unat v - 1)))
      else Some (Encoded v))"
| "CGLTF_PTRFIXUP (Resolved k) n = None"

fun CGLTF_PTRFIXUP_REQ :: "cgltf_ptr \<Rightarrow> nat \<Rightarrow> cgltf_ptr option" where
  "CGLTF_PTRFIXUP_REQ (Encoded v) n =
     (if v = 0 \<or> unat v > n then None else Some (Resolved (unat v - 1)))"
| "CGLTF_PTRFIXUP_REQ (Resolved k) n = None"

text \<open>A loop over an array that fixes each element in place and returns at the first error.\<close>

primrec fixup_each :: "('a \<Rightarrow> 'a option) \<Rightarrow> 'a list \<Rightarrow> 'a list option" where
  "fixup_each f [] = Some []"
| "fixup_each f (x # xs) =
     (case f x of
        None \<Rightarrow> None
      | Some y \<Rightarrow> (case fixup_each f xs of None \<Rightarrow> None | Some ys \<Rightarrow> Some (y # ys)))"

text \<open>A loop over the indices \<open>js\<close> whose body works on a state and may return an error.\<close>

primrec for_each :: "('s \<Rightarrow> nat \<Rightarrow> 's option) \<Rightarrow> nat list \<Rightarrow> 's \<Rightarrow> 's option" where
  "for_each f [] s = Some s"
| "for_each f (j # js) s = (case f s j of None \<Rightarrow> None | Some s' \<Rightarrow> for_each f js s')"

definition fixup_attribute :: "cgltf_data \<Rightarrow> cgltf_attribute \<Rightarrow> cgltf_attribute option" where
  "fixup_attribute d a =
     do { p \<leftarrow> CGLTF_PTRFIXUP_REQ (attr_data a) (length (accessors d));
          Some (a \<lparr> attr_data := p \<rparr>) }"

definition fixup_morph_target :: "cgltf_data \<Rightarrow> cgltf_morph_target \<Rightarrow> cgltf_morph_target option" where
  "fixup_morph_target d t =
     do { as \<leftarrow> fixup_each (fixup_attribute d) (target_attributes t);
          Some (t \<lparr> target_attributes := as \<rparr>) }"

definition fixup_primitive :: "cgltf_data \<Rightarrow> cgltf_primitive \<Rightarrow> cgltf_primitive option" where
  "fixup_primitive d p =
     do { i \<leftarrow> CGLTF_PTRFIXUP (prim_indices p) (length (accessors d));
          m \<leftarrow> CGLTF_PTRFIXUP (prim_material p) (length (materials d));
          as \<leftarrow> fixup_each (fixup_attribute d) (prim_attributes p);
          ts \<leftarrow> fixup_each (fixup_morph_target d) (prim_targets p);
          Some (p \<lparr> prim_indices := i, prim_material := m, prim_attributes := as,
                    prim_targets := ts \<rparr>) }"

definition fixup_mesh :: "cgltf_data \<Rightarrow> cgltf_mesh \<Rightarrow> cgltf_mesh option" where
  "fixup_mesh d m =
     do { ps \<leftarrow> fixup_each (fixup_primitive d) (mesh_primitives m);
          Some (m \<lparr> mesh_primitives := ps \<rparr>) }"

text \<open>
  The body of the accessor loop. The stride is read through the buffer view pointer just
  resolved; the buffer views themselves are fixed up later and keep their stride.
\<close>

definition fixup_sparse :: "cgltf_data \<Rightarrow> cgltf_accessor_sparse \<Rightarrow> cgltf_accessor_sparse option" where
  "fixup_sparse d sp =
     do { i \<leftarrow> CGLTF_PTRFIXUP_REQ (indices_buffer_view sp) (length (buffer_views d));
          v \<leftarrow> CGLTF_PTRFIXUP_REQ (values_buffer_view sp) (length (buffer_views d));
          Some (sp \<lparr> indices_buffer_view := i, values_buffer_view := v \<rparr>) }"

definition fixup_accessor :: "cgltf_data \<Rightarrow> cgltf_accessor \<Rightarrow> cgltf_accessor option" where
  "fixup_accessor d a =
     do { bv \<leftarrow> CGLTF_PTRFIXUP (acc_buffer_view a) (length (buffer_views d));
          sp \<leftarrow> (if acc_is_sparse a then fixup_sparse d (acc_sparse a) else Some (acc_sparse a));
          let stride1 = (case bv of
                           Resolved k \<Rightarrow> bv_stride (buffer_views d ! k)
                         | Encoded _ \<Rightarrow> acc_stride a);
              stride2 = (if stride1 = 0
                         then cgltf_calc_size (acc_type a) (acc_component_type a)
                         else stride1)
          in Some (a \<lparr> acc_buffer_view := bv, acc_sparse := sp, acc_stride := stride2 \<rparr>) }"

definition fixup_texture :: "cgltf_data \<Rightarrow> cgltf_texture \<Rightarrow> cgltf_texture option" where
  "fixup_texture d t =
     do { i \<leftarrow> CGLTF_PTRFIXUP (tex_image t) (length (images d));
          sm \<leftarrow> CGLTF_PTRFIXUP (tex_sampler t) (samplers_count d);
          Some (t \<lparr> tex_image := i, tex_sampler := sm \<rparr>) }"

definition fixup_image :: "cgltf_data \<Rightarrow> cgltf_image \<Rightarrow> cgltf_image option" where
  "fixup_image d i =
     do { bv \<leftarrow> CGLTF_PTRFIXUP (img_buffer_view i) (length (buffer_views d));
          Some (i \<lparr> img_buffer_view := bv \<rparr>) }"

definition fixup_texture_view :: "cgltf_data \<Rightarrow> cgltf_texture_view \<Rightarrow> cgltf_texture_view option" where
  "fixup_texture_view d tv =
     do { t \<leftarrow> CGLTF_PTRFIXUP (tv_texture tv) (length (textures d));
          Some (tv \<lparr> tv_texture := t \<rparr>) }"

definition fixup_material :: "cgltf_data \<Rightarrow> cgltf_material \<Rightarrow> cgltf_material option" where
  "fixup_material d m =
     do { normal \<leftarrow> fixup_texture_view d (normal_texture m);
          emissive \<leftarrow> fixup_texture_view d (emissive_texture m);
          occlusion \<leftarrow> fixup_texture_view d (occlusion_texture m);
          base_color \<leftarrow> fixup_texture_view d (base_color_texture (pbr_metallic_roughness m));
          metallic \<leftarrow>
            fixup_texture_view d (metallic_roughness_texture (pbr_metallic_roughness m));
          diffuse \<leftarrow> fixup_texture_view d (diffuse_texture (pbr_specular_glossiness m));
          specular \<leftarrow>
            fixup_texture_view d (specular_glossiness_texture (pbr_specular_glossiness m));
          Some (m \<lparr> normal_texture := normal, emissive_texture := emissive,
                    occlusion_texture := occlusion,
                    pbr_metallic_roughness :=
                      (pbr_metallic_roughness m)
                        \<lparr> base_color_texture := base_color,
                          metallic_roughness_texture := metallic \<rparr>,
                    pbr_specular_glossiness :=
                      (pbr_specular_glossiness m)
                        \<lparr> diffuse_texture := diffuse,
                          specular_glossiness_texture := specular \<rparr> \<rparr>) }"

definition fixup_buffer_view :: "cgltf_data \<Rightarrow> cgltf_buffer_view \<Rightarrow> cgltf_buffer_view option" where
  "fixup_buffer_view d bv =
     do { b \<leftarrow> CGLTF_PTRFIXUP_REQ (bv_buffer bv) (length (buffers d));
          Some (bv \<lparr> bv_buffer := b \<rparr>) }"

definition fixup_skin :: "cgltf_data \<Rightarrow> cgltf_skin \<Rightarrow> cgltf_skin option" where
  "fixup_skin d sk =
     do { js \<leftarrow> fixup_each (\<lambda>p. CGLTF_PTRFIXUP_REQ p (length (nodes d))) (skin_joints sk);
          skel \<leftarrow> CGLTF_PTRFIXUP (skin_skeleton sk) (length (nodes d));
          ibm \<leftarrow> CGLTF_PTRFIXUP (skin_inverse_bind_matrices sk) (length (accessors d));
          Some (sk \<lparr> skin_joints := js, skin_skeleton := skel,
                     skin_inverse_bind_matrices := ibm \<rparr>) }"

text \<open>
  The node loop works on the node array itself: the turn for child \<open>j\<close> of node \<open>i\<close>
  resolves \<open>children[j]\<close>, fails when that child already has a parent, and writes the
  address of node \<open>i\<close> into the child's parent field. The count of children is read
  once: no turn changes it.
\<close>

definition fixup_child :: "nat \<Rightarrow> cgltf_node list \<Rightarrow> nat \<Rightarrow> cgltf_node list option" where
  "fixup_child i ns j =
     (case CGLTF_PTRFIXUP_REQ (node_children (ns ! i) ! j) (length ns) of
        None \<Rightarrow> None
      | Some p \<Rightarrow>
          let ns1 = ns[i := (ns ! i) \<lparr> node_children := (node_children (ns ! i))[j := p] \<rparr>] in
          (case p of
             Encoded _ \<Rightarrow> None
           | Resolved c \<Rightarrow>
               if node_parent (ns1 ! c) \<noteq> NULL then None
               else Some (ns1[c := (ns1 ! c) \<lparr> node_parent := Resolved i \<rparr>])))"

definition fixup_node :: "cgltf_data \<Rightarrow> cgltf_node list \<Rightarrow> nat \<Rightarrow> cgltf_node list option" where
  "fixup_node d ns i =
     do { ns1 \<leftarrow> for_each (fixup_child i) [0..<length (node_children (ns ! i))] ns;
          mesh \<leftarrow> CGLTF_PTRFIXUP (node_mesh (ns1 ! i)) (length (meshes d));
          skin \<leftarrow> CGLTF_PTRFIXUP (node_skin (ns1 ! i)) (length (skins d));
          camera \<leftarrow> CGLTF_PTRFIXUP (node_camera (ns1 ! i)) (cameras_count d);
          light \<leftarrow> CGLTF_PTRFIXUP (node_light (ns1 ! i)) (lights_count d);
          Some (ns1[i := (ns1 ! i) \<lparr> node_mesh := mesh, node_skin := skin,
                                     node_camera := camera, node_light := light \<rparr>]) }"

definition fixup_nodes :: "cgltf_data \<Rightarrow> cgltf_node list \<Rightarrow> cgltf_node list option" where
  "fixup_nodes d ns = for_each (fixup_node d) [0..<length ns] ns"

text \<open>The scene loop reads the parent fields that the node loop has written.\<close>

definition fixup_scene_node :: "cgltf_node list \<Rightarrow> cgltf_ptr \<Rightarrow> cgltf_ptr option" where
  "fixup_scene_node ns p =
     (case CGLTF_PTRFIXUP_REQ p (length ns) of
        None \<Rightarrow> None
      | Some q \<Rightarrow>
          (case q of
             Encoded _ \<Rightarrow> None
           | Resolved r \<Rightarrow> if node_parent (ns ! r) \<noteq> NULL then None else Some q))"

definition fixup_scene :: "cgltf_node list \<Rightarrow> cgltf_scene \<Rightarrow> cgltf_scene option" where
  "fixup_scene ns sc =
     do { rs \<leftarrow> fixup_each (fixup_scene_node ns) (scene_nodes sc);
          Some (sc \<lparr> scene_nodes := rs \<rparr>) }"

definition fixup_animation_sampler ::
  "cgltf_data \<Rightarrow> cgltf_animation_sampler \<Rightarrow> cgltf_animation_sampler option" where
  "fixup_animation_sampler d sm =
     do { i \<leftarrow> CGLTF_PTRFIXUP_REQ (samp_input sm) (length (accessors d));
          out \<leftarrow> CGLTF_PTRFIXUP_REQ (samp_output sm) (length (accessors d));
          Some (sm \<lparr> samp_input := i, samp_output := out \<rparr>) }"

definition fixup_animation_channel ::
  "cgltf_data \<Rightarrow> nat \<Rightarrow> cgltf_animation_channel \<Rightarrow> cgltf_animation_channel option" where
  "fixup_animation_channel d n_samplers c =
     do { sm \<leftarrow> CGLTF_PTRFIXUP_REQ (chan_sampler c) n_samplers;
          n \<leftarrow> CGLTF_PTRFIXUP (chan_target_node c) (length (nodes d));
          Some (c \<lparr> chan_sampler := sm, chan_target_node := n \<rparr>) }"

definition fixup_animation :: "cgltf_data \<Rightarrow> cgltf_animation \<Rightarrow> cgltf_animation option" where
  "fixup_animation d a =
     do { ss \<leftarrow> fixup_each (fixup_animation_sampler d) (anim_samplers a);
          cs \<leftarrow> fixup_each (fixup_animation_channel d (length (anim_samplers a)))
                 (anim_channels a);
          Some (a \<lparr> anim_samplers := ss, anim_channels := cs \<rparr>) }"

text \<open>
  \<open>cgltf_fixup_pointers\<close>: \<open>None\<close> when the C function returns \<open>CGLTF_ERROR_JSON\<close>,
  \<open>Some\<close> of the linked graph when it returns 0. The loops run in the order of the source.
\<close>

definition cgltf_fixup_pointers :: "cgltf_data \<Rightarrow> cgltf_data option" where
  "cgltf_fixup_pointers d =
     do { ms \<leftarrow> fixup_each (fixup_mesh d) (meshes d);
          as \<leftarrow> fixup_each (fixup_accessor d) (accessors d);
          ts \<leftarrow> fixup_each (fixup_texture d) (textures d);
          is \<leftarrow> fixup_each (fixup_image d) (images d);
          mats \<leftarrow> fixup_each (fixup_material d) (materials d);
          bvs \<leftarrow> fixup_each (fixup_buffer_view d) (buffer_views d);
          sks \<leftarrow> fixup_each (fixup_skin d) (skins d);
          ns \<leftarrow> fixup_nodes d (nodes d);
          scs \<leftarrow> fixup_each (fixup_scene ns) (scenes d);
          sc \<leftarrow> CGLTF_PTRFIXUP (scene d) (length (scenes d));
          ans \<leftarrow> fixup_each (fixup_animation d) (animations d);
          Some (d \<lparr> meshes := ms, accessors := as, textures := ts, images := is,
                    materials := mats, buffer_views := bvs, skins := sks, nodes := ns,
                    scenes := scs, scene := sc, animations := ans \<rparr>) }"

section \<open>Parsing\<close>

text \<open>
  The options as \<open>cgltf_parse\<close> uses them. An allocator is the function telling for a
  requested size whether the allocation succeeds; a null \<open>memory_alloc\<close> is \<open>None\<close> and
  is replaced by \<open>cgltf_default_alloc\<close>, the \<open>malloc\<close> of the C library, which is a
  parameter of the model. Releasing memory has no effect on any result.
\<close>

record cgltf_options =
  opt_type :: cgltf_file_type
  json_token_count :: cgltf_size
  memory_alloc :: "(cgltf_size \<Rightarrow> bool) option"

definition CGLTF_ERROR_JSON :: int where "CGLTF_ERROR_JSON = - 1"
definition CGLTF_ERROR_NOMEM :: int where "CGLTF_ERROR_NOMEM = - 2"

definition GlbHeaderSize :: nat where "GlbHeaderSize = 12"
definition GlbChunkHeaderSize :: nat where "GlbChunkHeaderSize = 8"
definition GlbVersion :: "32 word" where "GlbVersion = 2"
definition GlbMagic :: "32 word" where "GlbMagic = 0x46546C67"
definition GlbMagicJsonChunk :: "32 word" where "GlbMagicJsonChunk = 0x4E4F534A"
definition GlbMagicBinChunk :: "32 word" where "GlbMagicBinChunk = 0x004E4942"

text \<open>
  The sizes passed to the allocator: \<open>sizeof(jsmntok_t)\<close> is five 4-byte integers,
  \<open>sizeof(cgltf_data)\<close> is given for 8-byte pointers and sizes.
\<close>

definition sizeof_jsmntok_t :: cgltf_size where "sizeof_jsmntok_t = 20"
definition sizeof_cgltf_data :: cgltf_size where "sizeof_cgltf_data = 392"

text \<open>
  The token array as the allocator hands it out. Its content is indeterminate in C;
  the tokeniser writes every field of a token before it reads it, and the model starts
  from zeros.
\<close>

definition fresh_tokens :: "nat \<Rightarrow> jsmntok_t list" where
  "fresh_tokens n =
     replicate n \<lparr> tok_type = JSMN_UNDEFINED, tok_start = 0, tok_end = 0, tok_size = 0,
                   tok_parent = 0 \<rparr>"

text \<open>
  The schema decoder. \<open>cgltf_parse_json_root\<close> checks that the first token is an
  object and then walks its members; the walk, which fills the arrays of the graph from
  the tokens and leaves every reference encoded, is the parameter \<open>members\<close>: it gives
  the return value of the walk and the graph as decoded.
\<close>

type_synonym decoder = "jsmntok_t list \<Rightarrow> byte list \<Rightarrow> cgltf_data \<Rightarrow> int \<times> cgltf_data"

definition cgltf_parse_json_root ::
  "decoder \<Rightarrow> jsmntok_t list \<Rightarrow> nat \<Rightarrow> byte list \<Rightarrow> cgltf_data \<Rightarrow> int \<times> cgltf_data" where
  "cgltf_parse_json_root members tokens i json_chunk out_data =
     (if tok_type (tokens ! i) \<noteq> JSMN_OBJECT then (CGLTF_ERROR_JSON, out_data)
      else members tokens json_chunk out_data)"

text \<open>
  The result of a parse: the code returned, the root written to \<open>*out_data\<close> if any, and
  whether \<open>cgltf_free\<close> was called on the graph under construction. \<open>None\<close> stands for
  a run that leaves the tokeniser's array or calls through a null allocator.
\<close>

type_synonym parse_result = "cgltf_result \<times> cgltf_data option \<times> bool"

definition cgltf_parse_json ::
  "decoder \<Rightarrow> cgltf_options \<Rightarrow> byte list \<Rightarrow> parse_result option" where
  "cgltf_parse_json members options json_chunk =
     (case memory_alloc options of
        None \<Rightarrow> None
      | Some alloc \<Rightarrow>
          (case (if json_token_count options = 0 then
                   map_option (\<lambda>(token_count, _, _). token_count)
                     (jsmn_parse \<lparr> pos = 0, toknext = 0, toksuper = 0 \<rparr> json_chunk None)
                 else Some (uint (json_token_count options))) of
             None \<Rightarrow> None
           | Some token_count \<Rightarrow>
               if json_token_count options = 0 \<and> token_count \<le> 0
               then Some (cgltf_result_invalid_json, None, False)
               else if \<not> alloc (sizeof_jsmntok_t * word_of_int token_count)
               then Some (cgltf_result_out_of_memory, None, False)
               else
                 (case jsmn_parse jsmn_init json_chunk
                         (Some (fresh_tokens (nat token_count))) of
                    None \<Rightarrow> None
                  | Some (token_count2, _, tokens) \<Rightarrow>
                      if token_count2 \<le> 0 then Some (cgltf_result_invalid_json, None, False)
                      else if \<not> alloc sizeof_cgltf_data
                      then Some (cgltf_result_out_of_memory, None, False)
                      else
                        (case cgltf_parse_json_root members (the tokens) 0 json_chunk
                                cgltf_data_zero of
                           (i, data) \<Rightarrow>
                             if i < 0 then
                               Some (if i = CGLTF_ERROR_NOMEM then cgltf_result_out_of_memory
                                     else cgltf_result_invalid_gltf, None, True)
                             else
                               (case cgltf_fixup_pointers data of
                                  None \<Rightarrow> Some (cgltf_result_invalid_gltf, None, True)
                                | Some linked \<Rightarrow>
                                    Some (cgltf_result_success,
                                          Some (linked \<lparr> json := json_chunk \<rparr>), False))))))"

text \<open>
  \<open>cgltf_parse\<close>. The input is the byte array \<open>data\<close>, its length the argument
  \<open>size\<close>; null options are \<open>None\<close>. The sums of the header sizes and the 32-bit chunk
  lengths do not overflow 64 bits and are natural numbers.
\<close>

definition parse_glb ::
  "decoder \<Rightarrow> cgltf_options \<Rightarrow> byte list \<Rightarrow> parse_result option" where
  "parse_glb members fixed_options data =
     (let size = length data in
      case read_u32 data 4 of
        None \<Rightarrow> None
      | Some version \<Rightarrow>
          if version \<noteq> GlbVersion then Some (cgltf_result_unknown_format, None, False)
          else
            (case read_u32 data 8 of
               None \<Rightarrow> None
             | Some tmp \<Rightarrow>
                 if unat tmp > size then Some (cgltf_result_data_too_short, None, False)
                 else if GlbHeaderSize + GlbChunkHeaderSize > size
                 then Some (cgltf_result_data_too_short, None, False)
                 else
                   (case read_u32 data GlbHeaderSize of
                      None \<Rightarrow> None
                    | Some json_length \<Rightarrow>
                        if GlbHeaderSize + GlbChunkHeaderSize + unat json_length > size
                        then Some (cgltf_result_data_too_short, None, False)
                        else if read_u32 data (GlbHeaderSize + 4) \<noteq> Some GlbMagicJsonChunk
                        then Some (cgltf_result_unknown_format, None, False)
                        else
                          let json_start = GlbHeaderSize + GlbChunkHeaderSize;
                              bin_header = json_start + unat json_length;
                              parse = (\<lambda>bin.
                                map_option
                                  (\<lambda>(r, out_data, freed).
                                     (r, map_option
                                           (\<lambda>root. root \<lparr> file_type := cgltf_file_type_glb,
                                                           bin := bin \<rparr>) out_data, freed))
                                  (cgltf_parse_json members fixed_options
                                     (take (unat json_length) (drop json_start data))))
                          in
                          if bin_header + GlbChunkHeaderSize \<le> size then
                            (case read_u32 data bin_header of
                               None \<Rightarrow> None
                             | Some bin_length \<Rightarrow>
                                 if bin_header + GlbChunkHeaderSize + unat bin_length > size
                                 then Some (cgltf_result_data_too_short, None, False)
                                 else if read_u32 data (bin_header + 4) \<noteq> Some GlbMagicBinChunk
                                 then Some (cgltf_result_unknown_format, None, False)
                                 else parse (Some (take (unat bin_length)
                                                     (drop (bin_header + GlbChunkHeaderSize) data))))
                          else parse None)))"

definition cgltf_parse ::
  "(cgltf_size \<Rightarrow> bool) \<Rightarrow> decoder \<Rightarrow> cgltf_options option \<Rightarrow> byte list
   \<Rightarrow> parse_result option" where
  "cgltf_parse cgltf_default_alloc members options data =
     (let size = length data in
      if size < GlbHeaderSize then Some (cgltf_result_data_too_short, None, False)
      else
        (case options of
           None \<Rightarrow> Some (cgltf_result_invalid_options, None, False)
         | Some opts \<Rightarrow>
             let fixed_options =
                   (if memory_alloc opts = None
                    then opts \<lparr> memory_alloc := Some cgltf_default_alloc \<rparr> else opts)
             in
             (case read_u32 data 0 of
                None \<Rightarrow> None
              | Some tmp \<Rightarrow>
                  if tmp \<noteq> GlbMagic \<and> opt_type fixed_options = cgltf_file_type_glb
                  then Some (cgltf_result_unknown_format, None, False)
                  else
                    let fixed_options2 =
                          (if tmp \<noteq> GlbMagic \<and> opt_type fixed_options = cgltf_file_type_invalid
                           then fixed_options \<lparr> opt_type := cgltf_file_type_gltf \<rparr>
                           else fixed_options)
                    in
                    if opt_type fixed_options2 = cgltf_file_type_gltf then
                      map_option
                        (\<lambda>(r, out_data, freed).
                           (r, map_option (\<lambda>root. root \<lparr> file_type := cgltf_file_type_gltf \<rparr>)
                                 out_data, freed))
                        (cgltf_parse_json members fixed_options2 data)
                    else parse_glb members fixed_options2 data)))"

subsection \<open>Scenario: a binary header given to a parse pinned to text\<close>

definition glb_header_bytes :: "byte list" where
  "glb_header_bytes = map of_char ''glTF'' @ [2, 0, 0, 0, 12, 0, 0, 0]"

definition text_options :: cgltf_options where
  "text_options =
     \<lparr> opt_type = cgltf_file_type_gltf, json_token_count = 0, memory_alloc = None \<rparr>"

definition binary_options :: cgltf_options where
  "binary_options =
     \<lparr> opt_type = cgltf_file_type_glb, json_token_count = 0, memory_alloc = None \<rparr>"

text \<open>An allocator that always succeeds and a member walk that decodes nothing.\<close>

definition always_alloc :: "cgltf_size \<Rightarrow> bool" where
  "always_alloc n = True"

definition no_members :: decoder where
  "no_members tokens json_chunk out_data = (1, out_data)"

subsection \<open>The two fixup policies in the words of the specification\<close>

text \<open>
  Required: the encoded value is nonzero and at most the length of the owning array.
  Optional: the encoded value is zero, or at most the length of the owning array.
\<close>

fun required_ok :: "cgltf_ptr \<Rightarrow> nat \<Rightarrow> bool" where
  "required_ok (Encoded v) n = (v \<noteq> 0 \<and> unat v \<le> n)"
| "required_ok (Resolved k) n = False"

fun optional_ok :: "cgltf_ptr \<Rightarrow> nat \<Rightarrow> bool" where
  "optional_ok (Encoded v) n = (v = 0 \<or> unat v \<le> n)"
| "optional_ok (Resolved k) n = False"

text \<open>
  The edges of the graph with their policies, as section 4.4 of the specification lists
  them; the two views of a sparse block are required when the accessor is sparse.
\<close>

definition attribute_ok :: "cgltf_data \<Rightarrow> cgltf_attribute \<Rightarrow> bool" where
  "attribute_ok d a = required_ok (attr_data a) (length (accessors d))"

definition primitive_ok :: "cgltf_data \<Rightarrow> cgltf_primitive \<Rightarrow> bool" where
  "primitive_ok d p =
     (optional_ok (prim_indices p) (length (accessors d))
      \<and> optional_ok (prim_material p) (length (materials d))
      \<and> list_all (attribute_ok d) (prim_attributes p)
      \<and> list_all (\<lambda>t. list_all (attribute_ok d) (target_attributes t)) (prim_targets p))"

definition mesh_ok :: "cgltf_data \<Rightarrow> cgltf_mesh \<Rightarrow> bool" where
  "mesh_ok d m = list_all (primitive_ok d) (mesh_primitives m)"

definition accessor_ok :: "cgltf_data \<Rightarrow> cgltf_accessor \<Rightarrow> bool" where
  "accessor_ok d a =
     (optional_ok (acc_buffer_view a) (length (buffer_views d))
      \<and> (if acc_is_sparse a
          then required_ok (indices_buffer_view (acc_sparse a)) (length (buffer_views d))
               \<and> required_ok (values_buffer_view (acc_sparse a)) (length (buffer_views d))
          else True))"

definition texture_ok :: "cgltf_data \<Rightarrow> cgltf_texture \<Rightarrow> bool" where
  "texture_ok d t =
     (optional_ok (tex_image t) (length (images d))
      \<and> optional_ok (tex_sampler t) (samplers_count d))"

definition image_ok :: "cgltf_data \<Rightarrow> cgltf_image \<Rightarrow> bool" where
  "image_ok d i = optional_ok (img_buffer_view i) (length (buffer_views d))"

definition texture_view_ok :: "cgltf_data \<Rightarrow> cgltf_texture_view \<Rightarrow> bool" where
  "texture_view_ok d tv = optional_ok (tv_texture tv) (length (textures d))"

definition material_ok :: "cgltf_data \<Rightarrow> cgltf_material \<Rightarrow> bool" where
  "material_ok d m =
     (texture_view_ok d (normal_texture m)
      \<and> texture_view_ok d (emissive_texture m)
      \<and> texture_view_ok d (occlusion_texture m)
      \<and> texture_view_ok d (base_color_texture (pbr_metallic_roughness m))
      \<and> texture_view_ok d (metallic_roughness_texture (pbr_metallic_roughness m))
      \<and> texture_view_ok d (diffuse_texture (pbr_specular_glossiness m))
      \<and> texture_view_ok d (specular_glossiness_texture (pbr_specular_glossiness m)))"

definition buffer_view_ok :: "cgltf_data \<Rightarrow> cgltf_buffer_view \<Rightarrow> bool" where
  "buffer_view_ok d bv = required_ok (bv_buffer bv) (length (buffers d))"

definition skin_ok :: "cgltf_data \<Rightarrow> cgltf_skin \<Rightarrow> bool" where
  "skin_ok d sk =
     (list_all (\<lambda>p. required_ok p (length (nodes d))) (skin_joints sk)
      \<and> optional_ok (skin_skeleton sk) (length (nodes d))
      \<and> optional_ok (skin_inverse_bind_matrices sk) (length (accessors d)))"

definition node_ok :: "cgltf_data \<Rightarrow> cgltf_node \<Rightarrow> bool" where
  "node_ok d n =
     (list_all (\<lambda>p. required_ok p (length (nodes d))) (node_children n)
      \<and> optional_ok (node_mesh n) (length (meshes d))
      \<and> optional_ok (node_skin n) (length (skins d))
      \<and> optional_ok (node_camera n) (cameras_count d)
      \<and> optional_ok (node_light n) (lights_count d))"

definition scene_ok :: "cgltf_data \<Rightarrow> cgltf_scene \<Rightarrow> bool" where
  "scene_ok d sc = list_all (\<lambda>p. required_ok p (length (nodes d))) (scene_nodes sc)"

definition animation_ok :: "cgltf_data \<Rightarrow> cgltf_animation \<Rightarrow> bool" where
  "animation_ok d a =
     (list_all (\<lambda>sm. required_ok (samp_input sm) (length (accessors d))
                    \<and> required_ok (samp_output sm) (length (accessors d))) (anim_samplers a)
      \<and> list_all (\<lambda>c. required_ok (chan_sampler c) (length (anim_samplers a))
                      \<and> optional_ok (chan_target_node c) (length (nodes d)))
           (anim_channels a))"

definition references_ok :: "cgltf_data \<Rightarrow> bool" where
  "references_ok d =
     (list_all (mesh_ok d) (meshes d)
      \<and> list_all (accessor_ok d) (accessors d)
      \<and> list_all (texture_ok d) (textures d)
      \<and> list_all (image_ok d) (images d)
      \<and> list_all (material_ok d) (materials d)
      \<and> list_all (buffer_view_ok d) (buffer_views d)
      \<and> list_all (skin_ok d) (skins d)
      \<and> list_all (node_ok d) (nodes d)
      \<and> list_all (scene_ok d) (scenes d)
      \<and> optional_ok (scene d) (length (scenes d))
      \<and> list_all (animation_ok d) (animations d))"

subsection \<open>Invariants of the node loop\<close>

text \<open>The address that a fixup macro puts in place of an encoded index.\<close>

fun rs :: "cgltf_ptr \<Rightarrow> cgltf_ptr" where
  "rs (Encoded v) = Resolved (unat v - 1)"
| "rs (Resolved k) = Resolved k"

text \<open>
  The node array \<open>t\<close> after the turns for children \<open>0..<j\<close> of node \<open>i\<close>, started on
  the array \<open>s\<close>: the first \<open>j\<close> children of node \<open>i\<close> are resolved and were valid
  required references, each of them had no parent in \<open>s\<close> and has node \<open>i\<close> as parent
  now, no two of them are the same node, and nothing else has changed.
\<close>

definition inner_inv :: "nat \<Rightarrow> cgltf_node list \<Rightarrow> nat \<Rightarrow> cgltf_node list \<Rightarrow> bool" where
  "inner_inv i s j t =
     (length t = length s
      \<and> (\<forall>k<length s. node_children (t ! k) =
            (if k = i then map rs (take j (node_children (s ! i))) @ drop j (node_children (s ! i))
             else node_children (s ! k)))
      \<and> list_all (\<lambda>p. required_ok p (length s)) (take j (node_children (s ! i)))
      \<and> (\<forall>k<length s. node_mesh (t ! k) = node_mesh (s ! k)
            \<and> node_skin (t ! k) = node_skin (s ! k)
            \<and> node_camera (t ! k) = node_camera (s ! k)
            \<and> node_light (t ! k) = node_light (s ! k))
      \<and> (\<forall>k<length s. node_parent (t ! k) =
            (if Resolved k \<in> set (map rs (take j (node_children (s ! i)))) then Resolved i
             else node_parent (s ! k)))
      \<and> distinct (map rs (take j (node_children (s ! i))))
      \<and> (\<forall>p \<in> set (map rs (take j (node_children (s ! i)))).
            \<exists>c<length s. p = Resolved c \<and> node_parent (s ! c) = NULL))"

text \<open>
  The node array \<open>s\<close> after the turns for nodes \<open>0..<i\<close>, started on \<open>s0\<close>: the
  children of these nodes are resolved and their references were valid, no node occurs
  twice among their children, every child has its lister as parent, and the later
  nodes still hold what the decoder stored.
\<close>

definition outer_inv :: "cgltf_data \<Rightarrow> cgltf_node list \<Rightarrow> nat \<Rightarrow> cgltf_node list \<Rightarrow> bool" where
  "outer_inv d s0 i s =
     (length s = length s0
      \<and> (\<forall>k<length s0. node_children (s ! k) =
            (if k < i then map rs (node_children (s0 ! k)) else node_children (s0 ! k)))
      \<and> (\<forall>k<length s0. k < i \<longrightarrow>
            list_all (\<lambda>p. required_ok p (length s0)) (node_children (s0 ! k))
            \<and> optional_ok (node_mesh (s0 ! k)) (length (meshes d))
            \<and> optional_ok (node_skin (s0 ! k)) (length (skins d))
            \<and> optional_ok (node_camera (s0 ! k)) (cameras_count d)
            \<and> optional_ok (node_light (s0 ! k)) (lights_count d))
      \<and> (\<forall>k<length s0. i \<le> k \<longrightarrow>
            node_mesh (s ! k) = node_mesh (s0 ! k) \<and> node_skin (s ! k) = node_skin (s0 ! k)
            \<and> node_camera (s ! k) = node_camera (s0 ! k)
            \<and> node_light (s ! k) = node_light (s0 ! k))
      \<and> distinct (concat (map node_children (take i s)))
      \<and> (\<forall>p \<in> set (concat (map node_children (take i s))). \<exists>c<length s0. p = Resolved c)
      \<and> (\<forall>k<i. \<forall>c. Resolved c \<in> set (node_children (s ! k)) \<longrightarrow>
            node_parent (s ! c) = Resolved k))"

subsection \<open>The decoded graph of a parse\<close>

text \<open>
  The return value of the schema decoder and the graph it has filled, in a run of
  \<open>cgltf_parse_json\<close> that gets as far as the decoder: the allocations succeed and both
  passes of the tokeniser return a positive count.
\<close>

definition decoded_graph ::
  "decoder \<Rightarrow> cgltf_options \<Rightarrow> byte list \<Rightarrow> (int \<times> cgltf_data) option" where
  "decoded_graph members options json_chunk =
     (case memory_alloc options of
        None \<Rightarrow> None
      | Some alloc \<Rightarrow>
          (case (if json_token_count options = 0 then
                   map_option (\<lambda>(token_count, _, _). token_count)
                     (jsmn_parse \<lparr> pos = 0, toknext = 0, toksuper = 0 \<rparr> json_chunk None)
                 else Some (uint (json_token_count options))) of
             None \<Rightarrow> None
           | Some token_count \<Rightarrow>
               if (json_token_count options = 0 \<and> token_count \<le> 0)
                  \<or> \<not> alloc (sizeof_jsmntok_t * word_of_int token_count)
               then None
               else
                 (case jsmn_parse jsmn_init json_chunk
                         (Some (fresh_tokens (nat token_count))) of
                    None \<Rightarrow> None
                  | Some (token_count2, _, tokens) \<Rightarrow>
                      if token_count2 \<le> 0 \<or> \<not> alloc sizeof_cgltf_data then None
                      else Some (cgltf_parse_json_root members (the tokens) 0 json_chunk
                                   cgltf_data_zero))))"

text \<open>
  The call of \<open>cgltf_parse_json\<close> in a run of \<open>cgltf_parse\<close>: the options and the
  JSON chunk it is called with, on the text path (the whole input) and on the binary path
  (the first chunk of the container); \<open>None\<close> when \<open>cgltf_parse\<close> returns before
  the call. \<open>glb_json_call\<close> is the part of it that reads the container.
\<close>

definition glb_json_call :: "cgltf_options \<Rightarrow> byte list \<Rightarrow> (cgltf_options \<times> byte list) option" where
  "glb_json_call fixed_options data =
     (let size = length data in
      case read_u32 data 4 of
        None \<Rightarrow> None
      | Some version \<Rightarrow>
          if version \<noteq> GlbVersion then None
          else
            (case read_u32 data 8 of
               None \<Rightarrow> None
             | Some tmp \<Rightarrow>
                 if unat tmp > size then None
                 else if GlbHeaderSize + GlbChunkHeaderSize > size then None
                 else
                   (case read_u32 data GlbHeaderSize of
                      None \<Rightarrow> None
                    | Some json_length \<Rightarrow>
                        if GlbHeaderSize + GlbChunkHeaderSize + unat json_length > size then None
                        else if read_u32 data (GlbHeaderSize + 4) \<noteq> Some GlbMagicJsonChunk
                        then None
                        else
                          let json_start = GlbHeaderSize + GlbChunkHeaderSize;
                              bin_header = json_start + unat json_length;
                              call = Some (fixed_options,
                                           take (unat json_length) (drop json_start data))
                          in
                          if bin_header + GlbChunkHeaderSize \<le> size then
                            (case read_u32 data bin_header of
                               None \<Rightarrow> None
                             | Some bin_length \<Rightarrow>
                                 if bin_header + GlbChunkHeaderSize + unat bin_length > size
                                 then None
                                 else if read_u32 data (bin_header + 4) \<noteq> Some GlbMagicBinChunk
                                 then None
                                 else call)
                          else call)))"

definition parse_json_call ::
  "(cgltf_size \<Rightarrow> bool) \<Rightarrow> cgltf_options option \<Rightarrow> byte list
   \<Rightarrow> (cgltf_options \<times> byte list) option" where
  "parse_json_call cgltf_default_alloc options data =
     (let size = length data in
      if size < GlbHeaderSize then None
      else
        (case options of
           None \<Rightarrow> None
         | Some opts \<Rightarrow>
             let fixed_options =
                   (if memory_alloc opts = None
                    then opts \<lparr> memory_alloc := Some cgltf_default_alloc \<rparr> else opts)
             in
             (case read_u32 data 0 of
                None \<Rightarrow> None
              | Some tmp \<Rightarrow>
                  if tmp \<noteq> GlbMagic \<and> opt_type fixed_options = cgltf_file_type_glb
                  then None
                  else
                    let fixed_options2 =
                          (if tmp \<noteq> GlbMagic \<and> opt_type fixed_options = cgltf_file_type_invalid
                           then fixed_options \<lparr> opt_type := cgltf_file_type_gltf \<rparr>
                           else fixed_options)
                    in
                    if opt_type fixed_options2 = cgltf_file_type_gltf
                    then Some (fixed_options2, data)
                    else glb_json_call fixed_options2 data)))"

subsection \<open>Scenario: a dangling accessor reference\<close>

text \<open>
  A graph as the decoder leaves it for a document with three accessors and a mesh whose
  primitive has the attribute \<open>POSITION\<close> on accessor index 5, and a member walk that
  decodes this graph.
\<close>

definition plain_accessor :: cgltf_accessor where
  "plain_accessor =
     \<lparr> acc_component_type = cgltf_component_type_r_32f, acc_normalized = False,
       acc_type = cgltf_type_vec3, acc_offset = 0, acc_count = 1, acc_stride = 0,
       acc_buffer_view = NULL, acc_is_sparse = False,
       acc_sparse = cgltf_accessor_sparse_zero \<rparr>"

definition dangling_data :: cgltf_data where
  "dangling_data =
     cgltf_data_zero
       \<lparr> accessors := [plain_accessor, plain_accessor, plain_accessor],
         meshes :=
           [\<lparr> mesh_primitives =
                [\<lparr> prim_indices = NULL, prim_material = NULL,
                    prim_attributes = [\<lparr> attr_name = ''POSITION'', attr_data = Encoded 6 \<rparr>],
                    prim_targets = [] \<rparr>],
              mesh_weights = None \<rparr>] \<rparr>"

definition dangling_members :: decoder where
  "dangling_members tokens json_chunk out_data = (1, dangling_data)"

text \<open>
  Options as \<open>cgltf_options options = {0}\<close> gives them: the file type is detected and
  the allocator is the default one. And a binary container whose JSON chunk is the text
  \<open>{"asset":{}}\<close>, with no binary chunk.
\<close>

definition zero_options :: cgltf_options where
  "zero_options =
     \<lparr> opt_type = cgltf_file_type_invalid, json_token_count = 0, memory_alloc = None \<rparr>"

definition glb_document :: "byte list" where
  "glb_document =
     map of_char ''glTF'' @ [2, 0, 0, 0, 32, 0, 0, 0, 12, 0, 0, 0] @ map of_char ''JSON''
     @ map of_char ''{\"asset\":{}}''"

subsection \<open>Scenario: a scene with a root and its child\<close>





subsection \<open>Invariant of the filling pass\<close>

text \<open>
  The tokens allocated so far lie inside the array, the superior token is one of them
  or none, and the parent link of every allocated token is \<open>-1\<close> or the index of an
  earlier token.
\<close>

definition wf_tokens :: "jsmn_parser \<Rightarrow> jsmntok_t list \<Rightarrow> bool" where
  "wf_tokens parser tokens =
     (toknext parser \<le> length tokens
      \<and> - 1 \<le> toksuper parser \<and> toksuper parser < int (toknext parser)
      \<and> (\<forall>k<toknext parser. - 1 \<le> tok_parent (tokens ! k) \<and> tok_parent (tokens ! k) < int k))"

text \<open>
  One turn of the counting pass (result \<open>sN\<close>, count \<open>cN\<close> before it) beside the same
  turn of the filling pass (result \<open>sF\<close>, count \<open>cF\<close>, parser \<open>pF\<close> and array \<open>toks\<close>
  before it): an error of the scan is returned by both; where the counting pass goes on,
  the filling pass goes on at the same position, having allocated as many tokens as the
  count has grown, or returns an error, which is the lack of tokens only when the turn
  needs a token and the array is full.
\<close>

definition step_sim ::
  "int \<Rightarrow> int \<Rightarrow> jsmn_parser \<Rightarrow> jsmntok_t list \<Rightarrow> jsmn_step \<Rightarrow> jsmn_step \<Rightarrow> bool" where
  "step_sim cN cF pF toks sN sF =
     (case sN of
        Stuck \<Rightarrow> False
      | Return r _ _ \<Rightarrow> r < 0 \<and> (\<exists>p t. sF = Return r p t)
      | Continue pN' tN' cN' \<Rightarrow>
          tN' = None \<and> (cN' = cN \<or> cN' = cN + 1)
          \<and> (case sF of
                Stuck \<Rightarrow> False
              | Return r _ _ \<Rightarrow>
                  r < 0 \<and> (r = JSMN_ERROR_NOMEM \<longrightarrow> cN' = cN + 1 \<and> length toks \<le> toknext pF)
              | Continue pF' tF' cF' \<Rightarrow>
                  pos pF' = pos pN' \<and> cF' = cF + (cN' - cN)
                  \<and> (\<exists>toks'. tF' = Some toks' \<and> length toks' = length toks
                        \<and> wf_tokens pF' toks'
                        \<and> int (toknext pF') = int (toknext pF) + (cN' - cN))))"

subsection \<open>Scenario: an object that is never closed\<close>

definition unclosed_object :: "byte list" where
  "unclosed_object = map of_char ''{''"

subsection \<open>The reader contract in the words of the specification\<close>

text \<open>
  The byte offsets, from the start of an element, at which its components lie: the three
  aligned matrix shapes as the specification lists them, every other shape contiguous.
\<close>

definition component_offsets :: "cgltf_type \<Rightarrow> cgltf_component_type \<Rightarrow> nat list" where
  "component_offsets t c =
     (if t = cgltf_type_mat2 \<and> cgltf_component_size c = 1 then [0, 1, 4, 5]
      else if t = cgltf_type_mat3 \<and> cgltf_component_size c = 1
        then [0, 1, 2, 4, 5, 6, 8, 9, 10]
      else if t = cgltf_type_mat3 \<and> cgltf_component_size c = 2
        then [0, 2, 4, 8, 10, 12, 16, 18, 20]
      else map (\<lambda>k. k * unat (cgltf_component_size c)) [0..<unat (cgltf_num_components t)])"

text \<open>
  An accessor of a linked graph: its buffer view, when it has one, is an element of the
  graph's buffer views, and that view's buffer an element of the graph's buffers.
\<close>

definition accessor_linked :: "cgltf_data \<Rightarrow> cgltf_accessor \<Rightarrow> bool" where
  "accessor_linked d a =
     (acc_buffer_view a = NULL \<or>
      (case deref (buffer_views d) (acc_buffer_view a) of
         None \<Rightarrow> False
       | Some bv \<Rightarrow> deref (buffers d) (bv_buffer bv) \<noteq> None))"

subsection \<open>Scenario: a normalized unsigned short\<close>

definition u16_scenario_accessor :: cgltf_accessor where
  "u16_scenario_accessor =
     \<lparr> acc_component_type = cgltf_component_type_r_16u, acc_normalized = True,
       acc_type = cgltf_type_scalar, acc_offset = 0, acc_count = 1, acc_stride = 2,
       acc_buffer_view = Resolved 0, acc_is_sparse = False,
       acc_sparse = cgltf_accessor_sparse_zero \<rparr>"

definition u16_scenario_data :: cgltf_data where
  "u16_scenario_data =
     cgltf_data_zero
       \<lparr> accessors := [u16_scenario_accessor],
         buffer_views := [\<lparr> bv_buffer = Resolved 0, bv_offset = 0, bv_size = 2, bv_stride = 0 \<rparr>],
         buffers := [\<lparr> buffer_size = 2, buffer_data = Some [0xFF, 0xFF] \<rparr>] \<rparr>"

subsection \<open>Scenario: a 2 by 2 matrix of unsigned bytes\<close>

definition mat2_scenario_accessor :: cgltf_accessor where
  "mat2_scenario_accessor =
     \<lparr> acc_component_type = cgltf_component_type_r_8u, acc_normalized = False,
       acc_type = cgltf_type_mat2, acc_offset = 0, acc_count = 1, acc_stride = 8,
       acc_buffer_view = Resolved 0, acc_is_sparse = False,
       acc_sparse = cgltf_accessor_sparse_zero \<rparr>"

definition mat2_scenario_data :: cgltf_data where
  "mat2_scenario_data =
     cgltf_data_zero
       \<lparr> accessors := [mat2_scenario_accessor],
         buffer_views := [\<lparr> bv_buffer = Resolved 0, bv_offset = 0, bv_size = 8, bv_stride = 0 \<rparr>],
         buffers := [\<lparr> buffer_size = 8, buffer_data = Some [1, 2, 3, 4, 5, 6, 7, 8] \<rparr>] \<rparr>"

section \<open>Theorems\<close>

subsection \<open>Element size\<close>

text \<open>
  C3, as stated: a mat3 element with 2-byte components occupies 12 bytes. The code
  returns \<open>12 * component_size\<close>, which is 24 for a 2-byte component, so the statement
  fails for mat3 over 16-bit components.
\<close>

theorem calc_size_mat3_16_not_12:
  "cgltf_calc_size cgltf_type_mat3 cgltf_component_type_r_16 \<noteq> 12"
  by (simp add: cgltf_calc_size_def)

text \<open>
  C3, amended: the element size is \<open>component_size * num_components\<close> except for
  mat2 over 1-byte components (8 bytes), mat3 over 1-byte components (12 bytes) and mat3
  over 2-byte components (\<open>12 * component_size\<close>, that is 24 bytes).
\<close>

theorem calc_size_table:
  "cgltf_calc_size t c =
     (if t = cgltf_type_mat2 \<and> cgltf_component_size c = 1 then 8
      else if t = cgltf_type_mat3 \<and> cgltf_component_size c = 1 then 12
      else if t = cgltf_type_mat3 \<and> cgltf_component_size c = 2 then 24
      else cgltf_component_size c * cgltf_num_components t)"
  by (cases c) (simp_all add: cgltf_calc_size_def Let_def)

subsection \<open>Normalized conversion\<close>

text \<open>
  C4: the normalized conversion divides the raw integer by \<open>UINT_MAX\<close> (u32),
  \<open>INT16_MAX\<close> (i16), \<open>UINT16_MAX\<close> (u16), \<open>INT8_MAX\<close> (i8) and, for u8, by 127;
  reading element 0 of a scalar accessor of normalized u16 components over the bytes
  \<open>FF FF\<close> returns true and the quotient 65535 / 65535, which is 1.
\<close>

theorem component_read_float_normalized:
  "cgltf_component_read_float mem p cgltf_component_type_r_32u True =
     map_option (\<lambda>w. Float_quot (uint w) 4294967295) (read_u32 mem p)
   \<and> cgltf_component_read_float mem p cgltf_component_type_r_16 True =
     map_option (\<lambda>w. Float_quot (sint w) 32767) (read_u16 mem p)
   \<and> cgltf_component_read_float mem p cgltf_component_type_r_16u True =
     map_option (\<lambda>w. Float_quot (uint w) 65535) (read_u16 mem p)
   \<and> cgltf_component_read_float mem p cgltf_component_type_r_8 True =
     map_option (\<lambda>w. Float_quot (sint w) 127) (read_u8 mem p)
   \<and> cgltf_component_read_float mem p cgltf_component_type_r_8u True =
     map_option (\<lambda>w. Float_quot (uint w) 127) (read_u8 mem p)
   \<and> cgltf_accessor_read_float u16_scenario_data u16_scenario_accessor 0 [Float_bits 0] 1 =
     Some (True, [Float_quot 65535 65535])
   \<and> float_value (Float_quot 65535 65535) = Some 1"
  by (simp add: cgltf_component_read_float_def UINT_MAX_def SHRT_MAX_def USHRT_MAX_def
      SCHAR_MAX_def CHAR_MAX_def cgltf_accessor_read_float_def u16_scenario_data_def
      u16_scenario_accessor_def cgltf_data_zero_def cgltf_element_read_float_def
      store_component_def read_u16_def)

subsection \<open>Reading an element as floats\<close>

lemma read_components_run:
  assumes "\<forall>off \<in> set offs. cgltf_component_read_float mem (element + off) c nrm \<noteq> None"
    and "k + length offs \<le> length out"
  shows "read_components (Some mem) element c nrm (zip [k..<k + length offs] offs) out =
         Some (take k out
               @ map (\<lambda>off. the (cgltf_component_read_float mem (element + off) c nrm)) offs
               @ drop (k + length offs) out)"
  using assms
proof (induction offs arbitrary: k out)
  case Nil
  then show ?case by simp
next
  case (Cons off offs)
  from Cons.prems obtain v where v: "cgltf_component_read_float mem (element + off) c nrm = Some v"
    by auto
  have k: "k < length out" using Cons.prems by simp
  have z: "zip [k..<k + length (off # offs)] (off # offs) =
           (k, off) # zip [Suc k..<Suc k + length offs] offs"
    by (simp add: upt_conv_Cons del: upt_Suc)
  have ih: "read_components (Some mem) element c nrm (zip [Suc k..<Suc k + length offs] offs)
              (out[k := v]) =
            Some (take (Suc k) (out[k := v])
                  @ map (\<lambda>off. the (cgltf_component_read_float mem (element + off) c nrm)) offs
                  @ drop (Suc k + length offs) (out[k := v]))"
    using Cons.prems by (intro Cons.IH) auto
  have t: "take (Suc k) (out[k := v]) = take k out @ [v]"
    using k by (simp add: take_Suc_conv_app_nth)
  have step: "read_components (Some mem) element c nrm
                (zip [k..<k + length (off # offs)] (off # offs)) out =
              read_components (Some mem) element c nrm
                (zip [Suc k..<Suc k + length offs] offs) (out[k := v])"
    unfolding z using k by (simp add: store_component_def v)
  show ?case
    unfolding step ih t by (simp add: v)
qed

lemma contiguous_offset:
  "i < unat (cgltf_num_components t) \<Longrightarrow>
   unat (cgltf_component_size c * word_of_nat i) = i * unat (cgltf_component_size c)"
proof -
  assume i: "i < unat (cgltf_num_components t)"
  have n: "unat (cgltf_num_components t) \<le> 16" by (cases t) simp_all
  have s: "unat (cgltf_component_size c) \<le> 4" by (cases c) simp_all
  have "i * unat (cgltf_component_size c) < 2 ^ 64"
  proof -
    have "i * unat (cgltf_component_size c) \<le> 16 * 4"
      using i n s by (intro mult_mono) auto
    then show ?thesis by simp
  qed
  moreover have "unat (word_of_nat i :: cgltf_size) = i"
    using i n by (simp add: unat_of_nat)
  ultimately show ?thesis
    by (simp add: unat_word_ariths mult.commute)
qed

lemma length_component_offsets:
  "length (component_offsets t c) = unat (cgltf_num_components t)"
  by (simp add: component_offsets_def)

lemma element_read_float_fills:
  assumes cap: "\<not> element_size < cgltf_num_components t"
    and rd: "\<forall>off \<in> set (component_offsets t c).
               cgltf_component_read_float mem (element + off) c nrm \<noteq> None"
    and out: "unat (cgltf_num_components t) \<le> length out"
  shows "cgltf_element_read_float (Some mem) element t c nrm out element_size =
         Some (True,
               map (\<lambda>off. the (cgltf_component_read_float mem (element + off) c nrm))
                 (component_offsets t c)
               @ drop (unat (cgltf_num_components t)) out)"
proof -
  let ?offs = "component_offsets t c"
  have len: "length ?offs = unat (cgltf_num_components t)"
    by (rule length_component_offsets)
  have run: "read_components (Some mem) element c nrm (zip [0..<0 + length ?offs] ?offs) out =
             Some (take 0 out
               @ map (\<lambda>off. the (cgltf_component_read_float mem (element + off) c nrm)) ?offs
               @ drop (0 + length ?offs) out)"
    using rd out len by (intro read_components_run) auto
  have zip_fixed: "zip [0..<0 + length ?offs] ?offs =
    (if t = cgltf_type_mat2 \<and> cgltf_component_size c = 1
       then [(0, 0), (1, 1), (2, 4), (3, 5)]
     else if t = cgltf_type_mat3 \<and> cgltf_component_size c = 1
       then [(0, 0), (1, 1), (2, 2), (3, 4), (4, 5), (5, 6), (6, 8), (7, 9), (8, 10)]
     else if t = cgltf_type_mat3 \<and> cgltf_component_size c = 2
       then [(0, 0), (1, 2), (2, 4), (3, 8), (4, 10), (5, 12), (6, 16), (7, 18), (8, 20)]
     else map (\<lambda>i. (i, unat (cgltf_component_size c * word_of_nat i)))
            [0..<unat (cgltf_num_components t)])"
  proof -
    have gen: "zip [0..<n] (map (\<lambda>k. k * unat (cgltf_component_size c)) [0..<n]) =
               map (\<lambda>i. (i, unat (cgltf_component_size c * word_of_nat i))) [0..<n]"
      if "n \<le> unat (cgltf_num_components t)" for n
      using that
    proof (induction n)
      case 0
      then show ?case by simp
    next
      case (Suc n)
      then have "unat (cgltf_component_size c * word_of_nat n) = n * unat (cgltf_component_size c)"
        by (intro contiguous_offset [where t = t]) simp
      with Suc show ?case by simp
    qed
    show ?thesis
      by (simp add: component_offsets_def gen upt_conv_Cons)
  qed
  have eq: "cgltf_element_read_float (Some mem) element t c nrm out element_size =
            map_option (Pair True)
              (read_components (Some mem) element c nrm (zip [0..<0 + length ?offs] ?offs) out)"
    unfolding zip_fixed using cap
    by (simp add: cgltf_element_read_float_def Let_def del: read_components.simps)
  show ?thesis
    unfolding eq run by (simp add: len)
qed

text \<open>
  C5: for an accessor of a linked graph, \<open>cgltf_accessor_read_float\<close> returns false
  exactly when the accessor is sparse, has no buffer view, or the capacity is below
  \<open>num_components(type)\<close>, and then leaves the output as it was. In every other case,
  with the buffer loaded, the components inside it and the output as long as its stated
  capacity, it returns true and has filled exactly the first \<open>num_components(type)\<close>
  floats, read at the aligned offsets for mat2 and mat3 over 1-byte components and mat3
  over 2-byte components and contiguously for every other shape.
\<close>

theorem accessor_read_float_contract:
  assumes linked: "accessor_linked d a"
  shows "((\<exists>out'. cgltf_accessor_read_float d a i out cap = Some (False, out')) \<longleftrightarrow>
            (acc_is_sparse a \<or> acc_buffer_view a = NULL
             \<or> cap < cgltf_num_components (acc_type a)))
       \<and> (acc_is_sparse a \<or> acc_buffer_view a = NULL \<or> cap < cgltf_num_components (acc_type a)
            \<longrightarrow> cgltf_accessor_read_float d a i out cap = Some (False, out))
       \<and> length (component_offsets (acc_type a) (acc_component_type a)) =
            unat (cgltf_num_components (acc_type a))
       \<and> (\<forall>bv buf mem.
            \<not> (acc_is_sparse a \<or> acc_buffer_view a = NULL
               \<or> cap < cgltf_num_components (acc_type a)) \<longrightarrow>
            deref (buffer_views d) (acc_buffer_view a) = Some bv \<longrightarrow>
            deref (buffers d) (bv_buffer bv) = Some buf \<longrightarrow>
            buffer_data buf = Some mem \<longrightarrow>
            (\<forall>off \<in> set (component_offsets (acc_type a) (acc_component_type a)).
               cgltf_component_read_float mem
                 (unat (acc_offset a + bv_offset bv + acc_stride a * i) + off)
                 (acc_component_type a) (acc_normalized a) \<noteq> None) \<longrightarrow>
            unat cap \<le> length out \<longrightarrow>
            cgltf_accessor_read_float d a i out cap =
              Some (True,
                    map (\<lambda>off. the (cgltf_component_read_float mem
                                  (unat (acc_offset a + bv_offset bv + acc_stride a * i) + off)
                                  (acc_component_type a) (acc_normalized a)))
                      (component_offsets (acc_type a) (acc_component_type a))
                    @ drop (unat (cgltf_num_components (acc_type a))) out))"
proof (intro conjI allI impI)
  show "(\<exists>out'. cgltf_accessor_read_float d a i out cap = Some (False, out')) \<longleftrightarrow>
        (acc_is_sparse a \<or> acc_buffer_view a = NULL \<or> cap < cgltf_num_components (acc_type a))"
    using linked
    by (auto simp: cgltf_accessor_read_float_def accessor_linked_def
        cgltf_element_read_float_def Let_def split: option.splits)
next
  assume "acc_is_sparse a \<or> acc_buffer_view a = NULL \<or> cap < cgltf_num_components (acc_type a)"
  then show "cgltf_accessor_read_float d a i out cap = Some (False, out)"
    using linked
    by (auto simp: cgltf_accessor_read_float_def accessor_linked_def
        cgltf_element_read_float_def Let_def split: option.splits)
next
  show "length (component_offsets (acc_type a) (acc_component_type a)) =
        unat (cgltf_num_components (acc_type a))"
    by (rule length_component_offsets)
next
  fix bv buf mem
  assume ncond: "\<not> (acc_is_sparse a \<or> acc_buffer_view a = NULL
                    \<or> cap < cgltf_num_components (acc_type a))"
    and bv: "deref (buffer_views d) (acc_buffer_view a) = Some bv"
    and buf: "deref (buffers d) (bv_buffer bv) = Some buf"
    and mem: "buffer_data buf = Some mem"
    and rd: "\<forall>off \<in> set (component_offsets (acc_type a) (acc_component_type a)).
               cgltf_component_read_float mem
                 (unat (acc_offset a + bv_offset bv + acc_stride a * i) + off)
                 (acc_component_type a) (acc_normalized a) \<noteq> None"
    and out: "unat cap \<le> length out"
  from ncond have cap: "\<not> cap < cgltf_num_components (acc_type a)" by simp
  then have "unat (cgltf_num_components (acc_type a)) \<le> unat cap"
    by (simp add: word_less_nat_alt)
  with out have out': "unat (cgltf_num_components (acc_type a)) \<le> length out" by simp
  show "cgltf_accessor_read_float d a i out cap =
        Some (True,
              map (\<lambda>off. the (cgltf_component_read_float mem
                            (unat (acc_offset a + bv_offset bv + acc_stride a * i) + off)
                            (acc_component_type a) (acc_normalized a)))
                (component_offsets (acc_type a) (acc_component_type a))
              @ drop (unat (cgltf_num_components (acc_type a))) out)"
    using ncond element_read_float_fills [OF cap rd out']
    by (simp add: cgltf_accessor_read_float_def bv buf mem Let_def)
qed

theorem accessor_read_float_contract_witness:
  "accessor_linked mat2_scenario_data mat2_scenario_accessor
   \<and> cgltf_accessor_read_float mat2_scenario_data mat2_scenario_accessor 0
       [Float_bits 0, Float_bits 0, Float_bits 0, Float_bits 0, Float_bits 0] 4 =
     Some (True, [Float_of_size 1, Float_of_size 2, Float_of_size 5, Float_of_size 6,
                  Float_bits 0])
   \<and> cgltf_accessor_read_float mat2_scenario_data mat2_scenario_accessor 0
       [Float_bits 0, Float_bits 0, Float_bits 0, Float_bits 0, Float_bits 0] 3 =
     Some (False, [Float_bits 0, Float_bits 0, Float_bits 0, Float_bits 0, Float_bits 0])"
proof -
  let ?out = "[Float_bits 0, Float_bits 0, Float_bits 0, Float_bits 0, Float_bits 0]"
  have l: "accessor_linked mat2_scenario_data mat2_scenario_accessor"
    by (simp add: accessor_linked_def mat2_scenario_data_def mat2_scenario_accessor_def
        cgltf_data_zero_def)
  have bv: "deref (buffer_views mat2_scenario_data) (acc_buffer_view mat2_scenario_accessor) =
            Some \<lparr> bv_buffer = Resolved 0, bv_offset = 0, bv_size = 8, bv_stride = 0 \<rparr>"
    by (simp add: mat2_scenario_data_def mat2_scenario_accessor_def cgltf_data_zero_def)
  have buf: "deref (buffers mat2_scenario_data)
               (bv_buffer \<lparr> bv_buffer = Resolved 0, bv_offset = 0, bv_size = 8, bv_stride = 0 \<rparr>) =
             Some \<lparr> buffer_size = 8, buffer_data = Some [1, 2, 3, 4, 5, 6, 7, 8] \<rparr>"
    by (simp add: mat2_scenario_data_def cgltf_data_zero_def)
  have filled: "cgltf_accessor_read_float mat2_scenario_data mat2_scenario_accessor 0 ?out 4 =
     Some (True, [Float_of_size 1, Float_of_size 2, Float_of_size 5, Float_of_size 6,
                  Float_bits 0])"
    using accessor_read_float_contract [OF l, of 0 ?out 4] bv buf
    by (simp add: mat2_scenario_accessor_def component_offsets_def
        cgltf_component_read_float_def read_u8_def)
  have refused: "cgltf_accessor_read_float mat2_scenario_data mat2_scenario_accessor 0 ?out 3 =
     Some (False, ?out)"
    using accessor_read_float_contract [OF l, of 0 ?out 3]
    by (simp add: mat2_scenario_accessor_def)
  show ?thesis using l filled refused by simp
qed

subsection \<open>Validation of accessor bounds\<close>





subsection \<open>Copying extras\<close>

text \<open>
  C8 on the code: the extras \<open>true\<close> (4 bytes) copied into a destination of capacity 4
  whose memory holds \<open>AA\<close> everywhere. The test \<open>*dest_size + 1 < json_size\<close> is false,
  so the code copies all 4 bytes, one more than \<open>dest_size - 1\<close>, and writes the NUL at
  offset 4, the first byte after the destination.
\<close>

theorem copy_extras_json_overflow:
  "map_option (\<lambda>(r, dest, cap). (r, map_option (\<lambda>m. map m [0, 1, 2, 3, 4, 5]) dest, cap))
     (cgltf_copy_extras_json extras_scenario_data extras_scenario_extras
        (Some (\<lambda>_. 0xAA)) (Some 4)) =
   Some (cgltf_result_success, Some [0x74, 0x72, 0x75, 0x65, 0x00, 0xAA], Some 4)"
  by code_simp

subsection \<open>The entry checks of the parser\<close>

text \<open>
  C10: an input shorter than 12 bytes makes \<open>cgltf_parse\<close> return data-too-short,
  whatever its content, the allocator, the decoder and the options; null options included,
  since the length is checked before the options.
\<close>

theorem parse_short_input:
  "length data < 12 \<Longrightarrow>
   cgltf_parse alloc members options data = Some (cgltf_result_data_too_short, None, False)"
  by (simp add: cgltf_parse_def GlbHeaderSize_def)

theorem parse_short_input_witness:
  "length (map of_char ''{\"a\":1}'' :: byte list) < 12
   \<and> cgltf_parse always_alloc no_members None (map of_char ''{\"a\":1}'') =
       Some (cgltf_result_data_too_short, None, False)
   \<and> cgltf_parse always_alloc no_members (Some text_options) (map of_char ''{\"a\":1}'') =
       Some (cgltf_result_data_too_short, None, False)"
proof -
  have l: "length (map of_char ''{\"a\":1}'' :: byte list) < 12" by simp
  show ?thesis
    using l parse_short_input [OF l, of always_alloc no_members None]
      parse_short_input [OF l, of always_alloc no_members "Some text_options"]
    by simp
qed

subsection \<open>A pinned file type\<close>

lemma parse_json_never_unknown_format:
  "cgltf_parse_json members options js = Some (r, out_data, freed) \<Longrightarrow>
   r \<noteq> cgltf_result_unknown_format"
  by (auto simp: cgltf_parse_json_def split: option.splits if_splits prod.splits)

text \<open>
  C2, as stated: a parse pinned to text returns unknown-format when the input starts
  with the GLB magic. The code has no such check: it hands the whole input to the JSON
  decoder. On a 12-byte GLB header the tokeniser rejects the version byte, and the result
  is invalid-json.
\<close>

theorem parse_text_pinned_glb_magic:
  "read_u32 glb_header_bytes 0 = Some GlbMagic
   \<and> cgltf_parse always_alloc no_members (Some text_options) glb_header_bytes =
       Some (cgltf_result_invalid_json, None, False)"
  by code_simp

text \<open>
  C2, amended: for every input of at least 12 bytes, a parse pinned to binary returns
  unknown-format when the first four bytes are not the GLB magic; a parse pinned to text
  gives the input to the JSON decoder whatever its first four bytes are, and never
  returns unknown-format.
\<close>

theorem parse_pinned_type:
  assumes len: "12 \<le> length data"
  shows "(opt_type opts = cgltf_file_type_glb \<and> read_u32 data 0 \<noteq> Some GlbMagic \<longrightarrow>
            cgltf_parse alloc members (Some opts) data =
              Some (cgltf_result_unknown_format, None, False))
       \<and> (opt_type opts = cgltf_file_type_gltf \<longrightarrow>
            cgltf_parse alloc members (Some opts) data =
              map_option
                (\<lambda>(r, out_data, freed).
                   (r, map_option (\<lambda>root. root \<lparr> file_type := cgltf_file_type_gltf \<rparr>) out_data,
                    freed))
                (cgltf_parse_json members
                   (if memory_alloc opts = None then opts \<lparr> memory_alloc := Some alloc \<rparr>
                    else opts) data)
            \<and> (\<forall>r out_data freed.
                  cgltf_parse alloc members (Some opts) data = Some (r, out_data, freed) \<longrightarrow>
                  r \<noteq> cgltf_result_unknown_format))"
proof -
  from len obtain tmp where tmp: "read_u32 data 0 = Some tmp"
    by (simp add: read_u32_def)
  have glb: "cgltf_parse alloc members (Some opts) data =
               Some (cgltf_result_unknown_format, None, False)"
    if "opt_type opts = cgltf_file_type_glb" "read_u32 data 0 \<noteq> Some GlbMagic"
    using that len tmp by (simp add: cgltf_parse_def GlbHeaderSize_def Let_def)
  have pinned_text: "cgltf_parse alloc members (Some opts) data =
              map_option
                (\<lambda>(r, out_data, freed).
                   (r, map_option (\<lambda>root. root \<lparr> file_type := cgltf_file_type_gltf \<rparr>) out_data,
                    freed))
                (cgltf_parse_json members
                   (if memory_alloc opts = None then opts \<lparr> memory_alloc := Some alloc \<rparr>
                    else opts) data)"
    if "opt_type opts = cgltf_file_type_gltf"
    using that len tmp by (simp add: cgltf_parse_def GlbHeaderSize_def Let_def)
  have never: "r \<noteq> cgltf_result_unknown_format"
    if "opt_type opts = cgltf_file_type_gltf"
      and "cgltf_parse alloc members (Some opts) data = Some (r, out_data, freed)"
    for r out_data freed
    using that(2) unfolding pinned_text [OF that(1)]
    by (auto dest: parse_json_never_unknown_format)
  show ?thesis using glb pinned_text never by blast
qed

theorem parse_pinned_type_witness:
  "12 \<le> length (map of_char ''{\"asset\":{}}'' :: byte list)
   \<and> cgltf_parse always_alloc no_members (Some binary_options) (map of_char ''{\"asset\":{}}'') =
       Some (cgltf_result_unknown_format, None, False)
   \<and> cgltf_parse always_alloc no_members (Some text_options) glb_header_bytes =
       map_option
         (\<lambda>(r, out_data, freed).
            (r, map_option (\<lambda>root. root \<lparr> file_type := cgltf_file_type_gltf \<rparr>) out_data, freed))
         (cgltf_parse_json no_members (text_options \<lparr> memory_alloc := Some always_alloc \<rparr>)
            glb_header_bytes)"
proof -
  have l1: "12 \<le> length (map of_char ''{\"asset\":{}}'' :: byte list)" by simp
  have l2: "12 \<le> length glb_header_bytes" by (simp add: glb_header_bytes_def)
  have m: "read_u32 (map of_char ''{\"asset\":{}}'') 0 \<noteq> Some GlbMagic"
    by (simp add: read_u32_def GlbMagic_def)
  show ?thesis
    using l1 m parse_pinned_type [OF l1, of binary_options always_alloc no_members]
      parse_pinned_type [OF l2, of text_options always_alloc no_members]
    by (simp add: binary_options_def text_options_def)
qed

subsection \<open>Reference fixup\<close>

lemma fixup_req_ok: "(CGLTF_PTRFIXUP_REQ p n \<noteq> None) = required_ok p n"
  by (cases p) auto

lemma fixup_opt_ok: "(CGLTF_PTRFIXUP p n \<noteq> None) = optional_ok p n"
  by (cases p) auto

lemma fixup_req_Some:
  "CGLTF_PTRFIXUP_REQ p n = Some q \<Longrightarrow>
   \<exists>v. p = Encoded v \<and> v \<noteq> 0 \<and> unat v \<le> n \<and> q = Resolved (unat v - 1)"
  by (cases p) (auto split: if_splits)

lemma fixup_each_all: "fixup_each f xs = Some ys \<Longrightarrow> list_all (\<lambda>x. f x \<noteq> None) xs"
  by (induction xs arbitrary: ys) (auto split: option.splits)

lemma fixup_each_rel: "fixup_each f xs = Some ys \<Longrightarrow> list_all2 (\<lambda>x y. f x = Some y) xs ys"
  by (induction xs arbitrary: ys) (auto split: option.splits)

lemma list_all_mono': "list_all P xs \<Longrightarrow> (\<And>x. P x \<Longrightarrow> Q x) \<Longrightarrow> list_all Q xs"
  by (induction xs) auto

lemma fixup_attribute_ok: "fixup_attribute d a \<noteq> None \<Longrightarrow> attribute_ok d a"
  by (auto simp: fixup_attribute_def attribute_ok_def fixup_req_ok [symmetric] split: bind_splits)

lemma fixup_attributes_ok:
  "fixup_each (fixup_attribute d) as = Some bs \<Longrightarrow> list_all (attribute_ok d) as"
  by (drule fixup_each_all) (erule list_all_mono', rule fixup_attribute_ok)

lemma fixup_morph_target_ok:
  "fixup_morph_target d t \<noteq> None \<Longrightarrow> list_all (attribute_ok d) (target_attributes t)"
  by (auto simp: fixup_morph_target_def split: bind_splits dest: fixup_attributes_ok)

lemma fixup_targets_ok:
  assumes "fixup_each (fixup_morph_target d) ts = Some us"
  shows "list_all (\<lambda>t. list_all (attribute_ok d) (target_attributes t)) ts"
proof -
  from assms have "list_all (\<lambda>t. fixup_morph_target d t \<noteq> None) ts"
    by (rule fixup_each_all)
  then show ?thesis
    by (rule list_all_mono') (rule fixup_morph_target_ok)
qed

lemma fixup_primitive_ok:
  assumes "fixup_primitive d p \<noteq> None"
  shows "primitive_ok d p"
proof -
  from assms obtain i m as ts where
    i: "CGLTF_PTRFIXUP (prim_indices p) (length (accessors d)) = Some i"
    and m: "CGLTF_PTRFIXUP (prim_material p) (length (materials d)) = Some m"
    and as: "fixup_each (fixup_attribute d) (prim_attributes p) = Some as"
    and ts: "fixup_each (fixup_morph_target d) (prim_targets p) = Some ts"
    by (auto simp: fixup_primitive_def split: bind_splits)
  from i have "optional_ok (prim_indices p) (length (accessors d))"
    by (simp add: fixup_opt_ok [symmetric])
  moreover from m have "optional_ok (prim_material p) (length (materials d))"
    by (simp add: fixup_opt_ok [symmetric])
  moreover note fixup_attributes_ok [OF as] fixup_targets_ok [OF ts]
  ultimately show ?thesis by (simp add: primitive_ok_def)
qed

lemma fixup_mesh_ok:
  assumes "fixup_mesh d m \<noteq> None"
  shows "mesh_ok d m"
proof -
  from assms obtain ps where "fixup_each (fixup_primitive d) (mesh_primitives m) = Some ps"
    by (auto simp: fixup_mesh_def split: bind_splits)
  then have "list_all (\<lambda>p. fixup_primitive d p \<noteq> None) (mesh_primitives m)"
    by (rule fixup_each_all)
  then show ?thesis
    unfolding mesh_ok_def by (rule list_all_mono') (rule fixup_primitive_ok)
qed

lemma fixup_accessor_ok:
  assumes "fixup_accessor d a \<noteq> None"
  shows "accessor_ok d a"
proof -
  from assms obtain bv sp where
    bv: "CGLTF_PTRFIXUP (acc_buffer_view a) (length (buffer_views d)) = Some bv"
    and sp: "(if acc_is_sparse a then fixup_sparse d (acc_sparse a) else Some (acc_sparse a)) = Some sp"
    by (auto simp: fixup_accessor_def split: bind_splits)
  from bv have o: "optional_ok (acc_buffer_view a) (length (buffer_views d))"
    by (simp add: fixup_opt_ok [symmetric])
  show ?thesis
  proof (cases "acc_is_sparse a")
    case False
    with o show ?thesis by (simp add: accessor_ok_def)
  next
    case True
    with sp have "fixup_sparse d (acc_sparse a) = Some sp" by simp
    then have "required_ok (indices_buffer_view (acc_sparse a)) (length (buffer_views d))
               \<and> required_ok (values_buffer_view (acc_sparse a)) (length (buffer_views d))"
      by (auto simp: fixup_sparse_def fixup_req_ok [symmetric] split: bind_splits)
    with o True show ?thesis by (simp add: accessor_ok_def)
  qed
qed

lemma fixup_texture_ok: "fixup_texture d t \<noteq> None \<Longrightarrow> texture_ok d t"
  by (auto simp: fixup_texture_def texture_ok_def fixup_opt_ok [symmetric] split: bind_splits)

lemma fixup_image_ok: "fixup_image d i \<noteq> None \<Longrightarrow> image_ok d i"
  by (auto simp: fixup_image_def image_ok_def fixup_opt_ok [symmetric] split: bind_splits)

lemma fixup_texture_view_ok: "fixup_texture_view d tv = Some tv' \<Longrightarrow> texture_view_ok d tv"
  by (auto simp: fixup_texture_view_def texture_view_ok_def fixup_opt_ok [symmetric]
      split: bind_splits)

lemma fixup_material_ok:
  assumes "fixup_material d m \<noteq> None"
  shows "material_ok d m"
proof -
  from assms obtain t1 t2 t3 t4 t5 t6 t7 where
    "fixup_texture_view d (normal_texture m) = Some t1"
    "fixup_texture_view d (emissive_texture m) = Some t2"
    "fixup_texture_view d (occlusion_texture m) = Some t3"
    "fixup_texture_view d (base_color_texture (pbr_metallic_roughness m)) = Some t4"
    "fixup_texture_view d (metallic_roughness_texture (pbr_metallic_roughness m)) = Some t5"
    "fixup_texture_view d (diffuse_texture (pbr_specular_glossiness m)) = Some t6"
    "fixup_texture_view d (specular_glossiness_texture (pbr_specular_glossiness m)) = Some t7"
    by (auto simp: fixup_material_def split: bind_splits)
  then show ?thesis
    unfolding material_ok_def by (intro conjI) (erule fixup_texture_view_ok)+
qed

lemma fixup_buffer_view_ok: "fixup_buffer_view d bv \<noteq> None \<Longrightarrow> buffer_view_ok d bv"
  by (auto simp: fixup_buffer_view_def buffer_view_ok_def fixup_req_ok [symmetric]
      split: bind_splits)

lemma fixup_skin_ok:
  assumes "fixup_skin d sk \<noteq> None"
  shows "skin_ok d sk"
proof -
  from assms obtain js skel ibm where
    js: "fixup_each (\<lambda>p. CGLTF_PTRFIXUP_REQ p (length (nodes d))) (skin_joints sk) = Some js"
    and skel: "CGLTF_PTRFIXUP (skin_skeleton sk) (length (nodes d)) = Some skel"
    and ibm: "CGLTF_PTRFIXUP (skin_inverse_bind_matrices sk) (length (accessors d)) = Some ibm"
    by (auto simp: fixup_skin_def split: bind_splits)
  have "list_all (\<lambda>p. required_ok p (length (nodes d))) (skin_joints sk)"
    by (rule list_all_mono' [OF fixup_each_all [OF js]]) (auto simp: fixup_req_ok [symmetric])
  with skel ibm show ?thesis
    by (simp add: skin_ok_def fixup_opt_ok [symmetric])
qed

lemma fixup_animation_ok:
  assumes "fixup_animation d a \<noteq> None"
  shows "animation_ok d a"
proof -
  from assms obtain ss cs where
    ss: "fixup_each (fixup_animation_sampler d) (anim_samplers a) = Some ss"
    and cs: "fixup_each (fixup_animation_channel d (length (anim_samplers a))) (anim_channels a)
             = Some cs"
    by (auto simp: fixup_animation_def split: bind_splits)
  have s: "list_all (\<lambda>sm. required_ok (samp_input sm) (length (accessors d))
                    \<and> required_ok (samp_output sm) (length (accessors d))) (anim_samplers a)"
    by (rule list_all_mono' [OF fixup_each_all [OF ss]])
      (auto simp: fixup_animation_sampler_def fixup_req_ok [symmetric] split: bind_splits)
  have c: "list_all (\<lambda>c. required_ok (chan_sampler c) (length (anim_samplers a))
                      \<and> optional_ok (chan_target_node c) (length (nodes d)))
           (anim_channels a)"
    by (rule list_all_mono' [OF fixup_each_all [OF cs]])
      (auto simp: fixup_animation_channel_def fixup_req_ok [symmetric]
        fixup_opt_ok [symmetric] split: bind_splits)
  from s c show ?thesis by (simp add: animation_ok_def)
qed

lemma fixup_scene_ok:
  assumes "fixup_scene ns sc \<noteq> None"
  shows "list_all (\<lambda>p. required_ok p (length ns)) (scene_nodes sc)"
proof -
  from assms obtain rs where "fixup_each (fixup_scene_node ns) (scene_nodes sc) = Some rs"
    by (auto simp: fixup_scene_def split: bind_splits)
  from fixup_each_all [OF this] show ?thesis
    by (rule list_all_mono')
      (auto simp: fixup_scene_node_def fixup_req_ok [symmetric] split: option.splits)
qed


lemma for_each_upt_induct:
  assumes run: "for_each f [a..<n] s = Some s'"
    and base: "P a s"
    and step: "\<And>j t t'. a \<le> j \<Longrightarrow> j < n \<Longrightarrow> P j t \<Longrightarrow> f t j = Some t' \<Longrightarrow> P (Suc j) t'"
    and le: "a \<le> n"
  shows "P n s'"
  using run base le step
proof (induction "n - a" arbitrary: a s)
  case 0
  then show ?case by simp
next
  case (Suc m)
  then have lt: "a < n" by simp
  then have u: "[a..<n] = a # [Suc a..<n]" by (rule upt_conv_Cons)
  from Suc.prems(1) obtain t where t: "f s a = Some t" and rest: "for_each f [Suc a..<n] t = Some s'"
    unfolding u by (auto split: option.splits)
  have "P (Suc a) t" using Suc.prems(4) [of a s t] lt Suc.prems(2) t by simp
  moreover have "m = n - Suc a" using Suc.hyps(2) by simp
  ultimately show ?case
    using rest lt Suc.prems(4) by (intro Suc.hyps(1) [of "Suc a" t]) auto
qed

lemma fixup_child_effect:
  assumes run: "fixup_child i ns j = Some ns'"
    and i: "i < length ns"
  shows "\<exists>c. required_ok (node_children (ns ! i) ! j) (length ns)
           \<and> rs (node_children (ns ! i) ! j) = Resolved c \<and> c < length ns
           \<and> node_parent (ns ! c) = NULL
           \<and> length ns' = length ns
           \<and> (\<forall>k<length ns. node_children (ns' ! k) =
                 (if k = i then (node_children (ns ! i))[j := Resolved c]
                  else node_children (ns ! k)))
           \<and> (\<forall>k<length ns. node_parent (ns' ! k) =
                 (if k = c then Resolved i else node_parent (ns ! k)))
           \<and> (\<forall>k<length ns. node_mesh (ns' ! k) = node_mesh (ns ! k)
                 \<and> node_skin (ns' ! k) = node_skin (ns ! k)
                 \<and> node_camera (ns' ! k) = node_camera (ns ! k)
                 \<and> node_light (ns' ! k) = node_light (ns ! k))"
proof -
  from run obtain p where p: "CGLTF_PTRFIXUP_REQ (node_children (ns ! i) ! j) (length ns) = Some p"
    by (auto simp: fixup_child_def split: option.splits)
  from fixup_req_Some [OF p] obtain v where
    v: "node_children (ns ! i) ! j = Encoded v" "v \<noteq> 0" "unat v \<le> length ns"
    and pv: "p = Resolved (unat v - 1)" by blast
  let ?c = "unat v - 1"
  from v have "unat v \<noteq> 0" by (simp add: unat_eq_0)
  with v have c: "?c < length ns" by simp
  let ?ns1 = "ns[i := (ns ! i) \<lparr> node_children := (node_children (ns ! i))[j := p] \<rparr>]"
  have par1: "node_parent (?ns1 ! ?c) = node_parent (ns ! ?c)"
    using i c by (cases "?c = i") simp_all
  from run p pv have null: "node_parent (?ns1 ! ?c) = NULL"
    and res: "ns' = ?ns1[?c := (?ns1 ! ?c) \<lparr> node_parent := Resolved i \<rparr>]"
    by (auto simp: fixup_child_def Let_def split: if_splits)
  show ?thesis
  proof (intro exI [of _ ?c] conjI allI impI)
    show "required_ok (node_children (ns ! i) ! j) (length ns)" using v by simp
    show "rs (node_children (ns ! i) ! j) = Resolved ?c" using v by simp
    show "?c < length ns" by (rule c)
    show "node_parent (ns ! ?c) = NULL" using null par1 by simp
    show "length ns' = length ns" using res by simp
  next
    fix k assume k: "k < length ns"
    show "node_children (ns' ! k) =
            (if k = i then (node_children (ns ! i))[j := Resolved ?c] else node_children (ns ! k))"
      using k i c res pv by (auto simp: nth_list_update)
    show "node_parent (ns' ! k) = (if k = ?c then Resolved i else node_parent (ns ! k))"
      using k i c res by (auto simp: nth_list_update)
    show "node_mesh (ns' ! k) = node_mesh (ns ! k)"
      using k i c res by (auto simp: nth_list_update)
    show "node_skin (ns' ! k) = node_skin (ns ! k)"
      using k i c res by (auto simp: nth_list_update)
    show "node_camera (ns' ! k) = node_camera (ns ! k)"
      using k i c res by (auto simp: nth_list_update)
    show "node_light (ns' ! k) = node_light (ns ! k)"
      using k i c res by (auto simp: nth_list_update)
  qed
qed


lemma inner_inv_step:
  assumes inv: "inner_inv i s j t"
    and run: "fixup_child i t j = Some t'"
    and i: "i < length s"
    and j: "j < length (node_children (s ! i))"
  shows "inner_inv i s (Suc j) t'"
proof -
  let ?row = "node_children (s ! i)"
  let ?done = "map rs (take j ?row)"
  from inv have len: "length t = length s"
    and kids: "\<And>k. k < length s \<Longrightarrow> node_children (t ! k) =
                 (if k = i then ?done @ drop j ?row else node_children (s ! k))"
    and req: "list_all (\<lambda>p. required_ok p (length s)) (take j ?row)"
    and rest: "\<And>k. k < length s \<Longrightarrow> node_mesh (t ! k) = node_mesh (s ! k)
                 \<and> node_skin (t ! k) = node_skin (s ! k)
                 \<and> node_camera (t ! k) = node_camera (s ! k)
                 \<and> node_light (t ! k) = node_light (s ! k)"
    and par: "\<And>k. k < length s \<Longrightarrow> node_parent (t ! k) =
                 (if Resolved k \<in> set ?done then Resolved i else node_parent (s ! k))"
    and dist: "distinct ?done"
    and fresh: "\<And>p. p \<in> set ?done \<Longrightarrow> \<exists>c<length s. p = Resolved c \<and> node_parent (s ! c) = NULL"
    unfolding inner_inv_def by blast+
  have it: "i < length t" using i len by simp
  have entry: "node_children (t ! i) ! j = ?row ! j"
    using kids [OF i] j by (simp add: nth_append)
  from fixup_child_effect [OF run it] obtain c where
    c_req: "required_ok (node_children (t ! i) ! j) (length t)"
    and c_rs: "rs (node_children (t ! i) ! j) = Resolved c"
    and c_lt: "c < length t"
    and c_null: "node_parent (t ! c) = NULL"
    and len': "length t' = length t"
    and kids': "\<And>k. k < length t \<Longrightarrow> node_children (t' ! k) =
                  (if k = i then (node_children (t ! i))[j := Resolved c]
                   else node_children (t ! k))"
    and par': "\<And>k. k < length t \<Longrightarrow> node_parent (t' ! k) =
                  (if k = c then Resolved i else node_parent (t ! k))"
    and rest': "\<And>k. k < length t \<Longrightarrow> node_mesh (t' ! k) = node_mesh (t ! k)
                 \<and> node_skin (t' ! k) = node_skin (t ! k)
                 \<and> node_camera (t' ! k) = node_camera (t ! k)
                 \<and> node_light (t' ! k) = node_light (t ! k)"
    by blast
  have c_s: "c < length s" using c_lt len by simp
  have notin: "Resolved c \<notin> set ?done" and s_null: "node_parent (s ! c) = NULL"
    using par [OF c_s] c_null by (auto split: if_splits)
  have done': "map rs (take (Suc j) ?row) = ?done @ [Resolved c]"
    using j c_rs entry by (simp add: take_Suc_conv_app_nth)
  have row': "(?done @ drop j ?row)[j := Resolved c] =
              map rs (take (Suc j) ?row) @ drop (Suc j) ?row"
  proof -
    have "drop j ?row = ?row ! j # drop (Suc j) ?row"
      using j by (simp add: Cons_nth_drop_Suc)
    moreover have "length ?done = j" using j by simp
    ultimately show ?thesis
      unfolding done' by (simp add: list_update_append)
  qed
  show ?thesis
    unfolding inner_inv_def
  proof (intro conjI allI impI ballI)
    show "length t' = length s" using len len' by simp
  next
    fix k assume k: "k < length s"
    show "node_children (t' ! k) =
            (if k = i then map rs (take (Suc j) ?row) @ drop (Suc j) ?row
             else node_children (s ! k))"
      using kids' [of k] kids [OF k] k len row' by auto
    show "node_mesh (t' ! k) = node_mesh (s ! k)" using rest' [of k] rest [OF k] k len by simp
    show "node_skin (t' ! k) = node_skin (s ! k)" using rest' [of k] rest [OF k] k len by simp
    show "node_camera (t' ! k) = node_camera (s ! k)" using rest' [of k] rest [OF k] k len by simp
    show "node_light (t' ! k) = node_light (s ! k)" using rest' [of k] rest [OF k] k len by simp
    show "node_parent (t' ! k) =
            (if Resolved k \<in> set (map rs (take (Suc j) ?row)) then Resolved i
             else node_parent (s ! k))"
      using par' [of k] par [OF k] k len unfolding done' by auto
  next
    show "list_all (\<lambda>p. required_ok p (length s)) (take (Suc j) ?row)"
      using req c_req entry len j by (simp add: take_Suc_conv_app_nth)
    show "distinct (map rs (take (Suc j) ?row))"
      unfolding done' using dist notin by simp
  next
    fix p assume "p \<in> set (map rs (take (Suc j) ?row))"
    then have "p \<in> set ?done \<or> p = Resolved c" unfolding done' by auto
    then show "\<exists>c<length s. p = Resolved c \<and> node_parent (s ! c) = NULL"
      using fresh c_s s_null by blast
  qed
qed

lemma inner_loop:
  assumes run: "for_each (fixup_child i) [0..<length (node_children (s ! i))] s = Some t"
    and i: "i < length s"
  shows "inner_inv i s (length (node_children (s ! i))) t"
proof (rule for_each_upt_induct [OF run])
  show "inner_inv i s 0 s" by (simp add: inner_inv_def)
  show "0 \<le> length (node_children (s ! i))" by simp
next
  fix j t t'
  assume "j < length (node_children (s ! i))" "inner_inv i s j t" "fixup_child i t j = Some t'"
  then show "inner_inv i s (Suc j) t'" using i by (intro inner_inv_step)
qed


lemma in_concat_take:
  "p \<in> set (concat (map f (take i s))) \<longleftrightarrow> (\<exists>k<i. k < length s \<and> p \<in> set (f (s ! k)))"
proof
  assume "p \<in> set (concat (map f (take i s)))"
  then obtain x where x: "x \<in> set (take i s)" and p: "p \<in> set (f x)" by auto
  from x obtain k where "k < length (take i s)" "take i s ! k = x"
    by (auto simp: in_set_conv_nth)
  then have "k < i" "k < length s" "s ! k = x" by simp_all
  with p show "\<exists>k<i. k < length s \<and> p \<in> set (f (s ! k))" by blast
next
  assume "\<exists>k<i. k < length s \<and> p \<in> set (f (s ! k))"
  then obtain k where k: "k < i" "k < length s" and p: "p \<in> set (f (s ! k))" by blast
  then have "s ! k \<in> set (take i s)"
    by (auto simp: in_set_conv_nth intro!: exI [of _ k])
  with p show "p \<in> set (concat (map f (take i s)))" by auto
qed

lemma fixup_node_effect:
  assumes run: "fixup_node d s i = Some u"
    and i: "i < length s"
  shows "length u = length s
       \<and> (\<forall>k<length s. node_children (u ! k) =
             (if k = i then map rs (node_children (s ! i)) else node_children (s ! k)))
       \<and> list_all (\<lambda>p. required_ok p (length s)) (node_children (s ! i))
       \<and> optional_ok (node_mesh (s ! i)) (length (meshes d))
       \<and> optional_ok (node_skin (s ! i)) (length (skins d))
       \<and> optional_ok (node_camera (s ! i)) (cameras_count d)
       \<and> optional_ok (node_light (s ! i)) (lights_count d)
       \<and> (\<forall>k<length s. k \<noteq> i \<longrightarrow>
             node_mesh (u ! k) = node_mesh (s ! k) \<and> node_skin (u ! k) = node_skin (s ! k)
             \<and> node_camera (u ! k) = node_camera (s ! k)
             \<and> node_light (u ! k) = node_light (s ! k))
       \<and> (\<forall>k<length s. node_parent (u ! k) =
             (if Resolved k \<in> set (map rs (node_children (s ! i))) then Resolved i
              else node_parent (s ! k)))
       \<and> distinct (map rs (node_children (s ! i)))
       \<and> (\<forall>p \<in> set (map rs (node_children (s ! i))).
             \<exists>c<length s. p = Resolved c \<and> node_parent (s ! c) = NULL)"
proof -
  let ?m = "length (node_children (s ! i))"
  from run obtain t mesh skin camera light where
    t: "for_each (fixup_child i) [0..<?m] s = Some t"
    and mesh: "CGLTF_PTRFIXUP (node_mesh (t ! i)) (length (meshes d)) = Some mesh"
    and skin: "CGLTF_PTRFIXUP (node_skin (t ! i)) (length (skins d)) = Some skin"
    and camera: "CGLTF_PTRFIXUP (node_camera (t ! i)) (cameras_count d) = Some camera"
    and light: "CGLTF_PTRFIXUP (node_light (t ! i)) (lights_count d) = Some light"
    and u: "u = t[i := (t ! i) \<lparr> node_mesh := mesh, node_skin := skin,
                               node_camera := camera, node_light := light \<rparr>]"
    by (auto simp: fixup_node_def split: bind_splits)
  from inner_loop [OF t i] have inv: "inner_inv i s ?m t" .
  then have len: "length t = length s"
    and kids: "\<And>k. k < length s \<Longrightarrow> node_children (t ! k) =
                 (if k = i then map rs (node_children (s ! i)) else node_children (s ! k))"
    and req: "list_all (\<lambda>p. required_ok p (length s)) (node_children (s ! i))"
    and rest: "\<And>k. k < length s \<Longrightarrow> node_mesh (t ! k) = node_mesh (s ! k)
                 \<and> node_skin (t ! k) = node_skin (s ! k)
                 \<and> node_camera (t ! k) = node_camera (s ! k)
                 \<and> node_light (t ! k) = node_light (s ! k)"
    and par: "\<And>k. k < length s \<Longrightarrow> node_parent (t ! k) =
                 (if Resolved k \<in> set (map rs (node_children (s ! i))) then Resolved i
                  else node_parent (s ! k))"
    and dist: "distinct (map rs (node_children (s ! i)))"
    and fresh: "\<forall>p \<in> set (map rs (node_children (s ! i))).
                  \<exists>c<length s. p = Resolved c \<and> node_parent (s ! c) = NULL"
    unfolding inner_inv_def by simp_all
  have it: "i < length t" using i len by simp
  show ?thesis
  proof (intro conjI allI impI)
    show "length u = length s" using u len by simp
    show "list_all (\<lambda>p. required_ok p (length s)) (node_children (s ! i))" by (rule req)
    show "optional_ok (node_mesh (s ! i)) (length (meshes d))"
      using mesh rest [OF i] by (simp add: fixup_opt_ok [symmetric])
    show "optional_ok (node_skin (s ! i)) (length (skins d))"
      using skin rest [OF i] by (simp add: fixup_opt_ok [symmetric])
    show "optional_ok (node_camera (s ! i)) (cameras_count d)"
      using camera rest [OF i] by (simp add: fixup_opt_ok [symmetric])
    show "optional_ok (node_light (s ! i)) (lights_count d)"
      using light rest [OF i] by (simp add: fixup_opt_ok [symmetric])
    show "distinct (map rs (node_children (s ! i)))" by (rule dist)
    show "\<forall>p \<in> set (map rs (node_children (s ! i))).
            \<exists>c<length s. p = Resolved c \<and> node_parent (s ! c) = NULL" by (rule fresh)
  next
    fix k assume k: "k < length s"
    show "node_children (u ! k) =
            (if k = i then map rs (node_children (s ! i)) else node_children (s ! k))"
      using kids [OF k] k len u by (auto simp: nth_list_update)
    have "node_parent (u ! k) = node_parent (t ! k)"
      using k len u by (cases "k = i") simp_all
    then show "node_parent (u ! k) =
            (if Resolved k \<in> set (map rs (node_children (s ! i))) then Resolved i
             else node_parent (s ! k))"
      using par [OF k] by simp
  next
    fix k assume k: "k < length s" and ne: "k \<noteq> i"
    show "node_mesh (u ! k) = node_mesh (s ! k)" using rest [OF k] k ne len u by simp
    show "node_skin (u ! k) = node_skin (s ! k)" using rest [OF k] k ne len u by simp
    show "node_camera (u ! k) = node_camera (s ! k)" using rest [OF k] k ne len u by simp
    show "node_light (u ! k) = node_light (s ! k)" using rest [OF k] k ne len u by simp
  qed
qed

lemma outer_inv_step:
  assumes inv: "outer_inv d s0 i s"
    and run: "fixup_node d s i = Some u"
    and i: "i < length s0"
  shows "outer_inv d s0 (Suc i) u"
proof -
  from inv have len: "length s = length s0"
    and kids: "\<And>k. k < length s0 \<Longrightarrow> node_children (s ! k) =
                 (if k < i then map rs (node_children (s0 ! k)) else node_children (s0 ! k))"
    and ok: "\<And>k. k < length s0 \<Longrightarrow> k < i \<Longrightarrow>
                 list_all (\<lambda>p. required_ok p (length s0)) (node_children (s0 ! k))
                 \<and> optional_ok (node_mesh (s0 ! k)) (length (meshes d))
                 \<and> optional_ok (node_skin (s0 ! k)) (length (skins d))
                 \<and> optional_ok (node_camera (s0 ! k)) (cameras_count d)
                 \<and> optional_ok (node_light (s0 ! k)) (lights_count d)"
    and rest: "\<And>k. k < length s0 \<Longrightarrow> i \<le> k \<Longrightarrow>
                 node_mesh (s ! k) = node_mesh (s0 ! k) \<and> node_skin (s ! k) = node_skin (s0 ! k)
                 \<and> node_camera (s ! k) = node_camera (s0 ! k)
                 \<and> node_light (s ! k) = node_light (s0 ! k)"
    and dist: "distinct (concat (map node_children (take i s)))"
    and range: "\<And>p. p \<in> set (concat (map node_children (take i s))) \<Longrightarrow>
                  \<exists>c<length s0. p = Resolved c"
    and par: "\<And>k c. k < i \<Longrightarrow> Resolved c \<in> set (node_children (s ! k)) \<Longrightarrow>
                  node_parent (s ! c) = Resolved k"
    unfolding outer_inv_def by blast+
  have is': "i < length s" using i len by simp
  let ?new = "map rs (node_children (s ! i))"
  from fixup_node_effect [OF run is'] have
    len': "length u = length s"
    and kids': "\<And>k. k < length s \<Longrightarrow> node_children (u ! k) =
                  (if k = i then ?new else node_children (s ! k))"
    and req': "list_all (\<lambda>p. required_ok p (length s)) (node_children (s ! i))"
    and opt': "optional_ok (node_mesh (s ! i)) (length (meshes d))"
      "optional_ok (node_skin (s ! i)) (length (skins d))"
      "optional_ok (node_camera (s ! i)) (cameras_count d)"
      "optional_ok (node_light (s ! i)) (lights_count d)"
    and rest': "\<And>k. k < length s \<Longrightarrow> k \<noteq> i \<Longrightarrow>
                  node_mesh (u ! k) = node_mesh (s ! k) \<and> node_skin (u ! k) = node_skin (s ! k)
                  \<and> node_camera (u ! k) = node_camera (s ! k)
                  \<and> node_light (u ! k) = node_light (s ! k)"
    and par': "\<And>k. k < length s \<Longrightarrow> node_parent (u ! k) =
                  (if Resolved k \<in> set ?new then Resolved i else node_parent (s ! k))"
    and dist': "distinct ?new"
    and fresh': "\<And>p. p \<in> set ?new \<Longrightarrow> \<exists>c<length s. p = Resolved c \<and> node_parent (s ! c) = NULL"
    by blast+
  have row: "node_children (s ! i) = node_children (s0 ! i)" using kids [OF i] by simp
  have old_eq: "map node_children (take i u) = map node_children (take i s)"
    using kids' len' is' by (auto intro!: nth_equalityI)
  have split: "concat (map node_children (take (Suc i) u)) =
               concat (map node_children (take i s)) @ ?new"
  proof -
    have "take (Suc i) u = take i u @ [u ! i]"
      using is' len' by (simp add: take_Suc_conv_app_nth)
    then show ?thesis using old_eq kids' [OF is'] by simp
  qed
  have old_has_parent: "node_parent (s ! c) \<noteq> NULL"
    if "Resolved c \<in> set (concat (map node_children (take i s)))" for c
  proof -
    from that obtain k where "k < i" "Resolved c \<in> set (node_children (s ! k))"
      unfolding in_concat_take by blast
    from par [OF this] show ?thesis by simp
  qed
  have disjoint: "set (concat (map node_children (take i s))) \<inter> set ?new = {}"
  proof (rule ccontr)
    assume "\<not> ?thesis"
    then obtain p where p1: "p \<in> set (concat (map node_children (take i s)))"
      and p2: "p \<in> set ?new" by blast
    from fresh' [OF p2] obtain c where "p = Resolved c" "node_parent (s ! c) = NULL" by blast
    with old_has_parent [of c] p1 show False by simp
  qed
  show ?thesis
    unfolding outer_inv_def
  proof (intro conjI allI impI ballI)
    show "length u = length s0" using len len' by simp
    show "distinct (concat (map node_children (take (Suc i) u)))"
      unfolding split using dist dist' disjoint by simp
  next
    fix k assume k: "k < length s0"
    show "node_children (u ! k) =
            (if k < Suc i then map rs (node_children (s0 ! k)) else node_children (s0 ! k))"
      using kids' [of k] kids [OF k] k len row by (auto simp: less_Suc_eq)
  next
    fix k assume k: "k < length s0" and lt: "k < Suc i"
    show "list_all (\<lambda>p. required_ok p (length s0)) (node_children (s0 ! k))"
      using ok [OF k] lt req' row len by (cases "k = i") (auto simp: less_Suc_eq)
    show "optional_ok (node_mesh (s0 ! k)) (length (meshes d))"
      using ok [OF k] lt opt' rest [OF i] by (cases "k = i") (auto simp: less_Suc_eq)
    show "optional_ok (node_skin (s0 ! k)) (length (skins d))"
      using ok [OF k] lt opt' rest [OF i] by (cases "k = i") (auto simp: less_Suc_eq)
    show "optional_ok (node_camera (s0 ! k)) (cameras_count d)"
      using ok [OF k] lt opt' rest [OF i] by (cases "k = i") (auto simp: less_Suc_eq)
    show "optional_ok (node_light (s0 ! k)) (lights_count d)"
      using ok [OF k] lt opt' rest [OF i] by (cases "k = i") (auto simp: less_Suc_eq)
  next
    fix k assume k: "k < length s0" and ge: "Suc i \<le> k"
    then have "k \<noteq> i" "i \<le> k" by simp_all
    then show "node_mesh (u ! k) = node_mesh (s0 ! k)"
      "node_skin (u ! k) = node_skin (s0 ! k)"
      "node_camera (u ! k) = node_camera (s0 ! k)"
      "node_light (u ! k) = node_light (s0 ! k)"
      using rest' [of k] rest [OF k] k len by simp_all
  next
    fix p assume "p \<in> set (concat (map node_children (take (Suc i) u)))"
    then have "p \<in> set (concat (map node_children (take i s))) \<or> p \<in> set ?new"
      unfolding split by auto
    then show "\<exists>c<length s0. p = Resolved c"
      using range fresh' len by metis
  next
    fix k c assume k: "k < Suc i" and c: "Resolved c \<in> set (node_children (u ! k))"
    have ks: "k < length s" using k is' by simp
    show "node_parent (u ! c) = Resolved k"
    proof (cases "k = i")
      case True
      with c kids' [OF is'] have new: "Resolved c \<in> set ?new" by simp
      from fresh' [OF new] have "c < length s" by auto
      from par' [OF this] new True show ?thesis by simp
    next
      case False
      with k have ki: "k < i" by simp
      with c kids' [OF ks] False have old: "Resolved c \<in> set (node_children (s ! k))" by simp
      then have inold: "Resolved c \<in> set (concat (map node_children (take i s)))"
        unfolding in_concat_take using ki ks by blast
      from range [OF inold] len have cs: "c < length s" by auto
      from inold disjoint have "Resolved c \<notin> set ?new" by blast
      with par' [OF cs] par [OF ki old] show ?thesis by simp
    qed
  qed
qed

lemma fixup_nodes_inv:
  assumes run: "fixup_nodes d s0 = Some s"
  shows "outer_inv d s0 (length s0) s"
proof (rule for_each_upt_induct [OF run [unfolded fixup_nodes_def]])
  show "outer_inv d s0 0 s0" by (simp add: outer_inv_def)
  show "0 \<le> length s0" by simp
next
  fix j t t'
  assume "j < length s0" "outer_inv d s0 j t" "fixup_node d t j = Some t'"
  then show "outer_inv d s0 (Suc j) t'" by (intro outer_inv_step)
qed

lemma fixup_each_cong_all:
  "fixup_each f xs = Some ys \<Longrightarrow> (\<And>x. f x \<noteq> None \<Longrightarrow> P x) \<Longrightarrow> list_all P xs"
  by (rule list_all_mono' [OF fixup_each_all])

lemma outer_inv_ok:
  "outer_inv d s0 i s \<Longrightarrow> k < length s0 \<Longrightarrow> k < i \<Longrightarrow>
   list_all (\<lambda>p. required_ok p (length s0)) (node_children (s0 ! k))
   \<and> optional_ok (node_mesh (s0 ! k)) (length (meshes d))
   \<and> optional_ok (node_skin (s0 ! k)) (length (skins d))
   \<and> optional_ok (node_camera (s0 ! k)) (cameras_count d)
   \<and> optional_ok (node_light (s0 ! k)) (lights_count d)"
  by (simp add: outer_inv_def)

lemma fixup_pointers_references_ok:
  assumes "cgltf_fixup_pointers d = Some d'"
  shows "references_ok d"
proof -
  from assms obtain ms accs ts imgs mats bvs sks ns scs sc ans where
    ms: "fixup_each (fixup_mesh d) (meshes d) = Some ms"
    and accs: "fixup_each (fixup_accessor d) (accessors d) = Some accs"
    and ts: "fixup_each (fixup_texture d) (textures d) = Some ts"
    and imgs: "fixup_each (fixup_image d) (images d) = Some imgs"
    and mats: "fixup_each (fixup_material d) (materials d) = Some mats"
    and bvs: "fixup_each (fixup_buffer_view d) (buffer_views d) = Some bvs"
    and sks: "fixup_each (fixup_skin d) (skins d) = Some sks"
    and ns: "fixup_nodes d (nodes d) = Some ns"
    and scs: "fixup_each (fixup_scene ns) (scenes d) = Some scs"
    and sc: "CGLTF_PTRFIXUP (scene d) (length (scenes d)) = Some sc"
    and ans: "fixup_each (fixup_animation d) (animations d) = Some ans"
    unfolding cgltf_fixup_pointers_def bind_eq_Some_conv by blast
  from fixup_nodes_inv [OF ns] have inv: "outer_inv d (nodes d) (length (nodes d)) ns" .
  then have len: "length ns = length (nodes d)" by (simp add: outer_inv_def)
  have nodes_ok: "list_all (node_ok d) (nodes d)"
    unfolding list_all_length
  proof (intro allI impI)
    fix k assume "k < length (nodes d)"
    from outer_inv_ok [OF inv this this] show "node_ok d (nodes d ! k)"
      by (simp add: node_ok_def)
  qed
  have scenes_ok: "list_all (scene_ok d) (scenes d)"
    unfolding scene_ok_def len [symmetric]
    by (rule fixup_each_cong_all [OF scs]) (rule fixup_scene_ok)
  show ?thesis
    unfolding references_ok_def
    using fixup_each_cong_all [OF ms fixup_mesh_ok]
      fixup_each_cong_all [OF accs fixup_accessor_ok]
      fixup_each_cong_all [OF ts fixup_texture_ok]
      fixup_each_cong_all [OF imgs fixup_image_ok]
      fixup_each_cong_all [OF mats fixup_material_ok]
      fixup_each_cong_all [OF bvs fixup_buffer_view_ok]
      fixup_each_cong_all [OF sks fixup_skin_ok]
      fixup_each_cong_all [OF ans fixup_animation_ok]
      nodes_ok scenes_ok sc
    by (simp add: fixup_opt_ok [symmetric])
qed

lemma parse_json_decoded:
  assumes "decoded_graph members options js = Some (i, data)"
  shows "cgltf_parse_json members options js =
         Some (if i < 0 then
                 (if i = CGLTF_ERROR_NOMEM then cgltf_result_out_of_memory
                  else cgltf_result_invalid_gltf, None, True)
               else
                 (case cgltf_fixup_pointers data of
                    None \<Rightarrow> (cgltf_result_invalid_gltf, None, True)
                  | Some linked \<Rightarrow>
                      (cgltf_result_success, Some (linked \<lparr> json := js \<rparr>), False)))"
proof -
  from assms obtain alloc where alloc: "memory_alloc options = Some alloc"
    by (auto simp: decoded_graph_def split: option.splits)
  let ?count = "(if json_token_count options = 0 then
                   map_option (\<lambda>(token_count, _, _). token_count)
                     (jsmn_parse \<lparr> pos = 0, toknext = 0, toksuper = 0 \<rparr> js None)
                 else Some (uint (json_token_count options)))"
  from assms alloc obtain n where n: "?count = Some n"
    by (cases ?count) (simp_all add: decoded_graph_def)
  from assms alloc n have c1: "\<not> (json_token_count options = 0 \<and> n \<le> 0)"
    and a1: "alloc (sizeof_jsmntok_t * word_of_int n)"
    by (auto simp: decoded_graph_def split: if_splits)
  let ?fill = "jsmn_parse jsmn_init js (Some (fresh_tokens (nat n)))"
  from assms alloc n c1 a1 obtain n2 p2 toks where fill: "?fill = Some (n2, p2, toks)"
    by (cases ?fill) (auto simp: decoded_graph_def)
  from assms alloc n c1 a1 fill have c2: "\<not> n2 \<le> 0" and a2: "alloc sizeof_cgltf_data"
    and dec: "cgltf_parse_json_root members (the toks) 0 js cgltf_data_zero = (i, data)"
    by (auto simp: decoded_graph_def split: if_splits)
  show ?thesis
    using alloc n c1 a1 fill c2 a2 dec
    by (simp add: cgltf_parse_json_def split: option.splits)
qed


lemma parse_json_success:
  assumes "cgltf_parse_json members options js = Some (cgltf_result_success, Some g, freed)"
  shows "\<exists>i data linked. decoded_graph members options js = Some (i, data)
           \<and> cgltf_fixup_pointers data = Some linked \<and> g = linked \<lparr> json := js \<rparr>"
proof -
  from assms obtain alloc where alloc: "memory_alloc options = Some alloc"
    by (auto simp: cgltf_parse_json_def split: option.splits)
  let ?count = "(if json_token_count options = 0 then
                   map_option (\<lambda>(token_count, _, _). token_count)
                     (jsmn_parse \<lparr> pos = 0, toknext = 0, toksuper = 0 \<rparr> js None)
                 else Some (uint (json_token_count options)))"
  from assms alloc obtain n where n: "?count = Some n"
    by (cases ?count) (simp_all add: cgltf_parse_json_def)
  from assms alloc n have c1: "\<not> (json_token_count options = 0 \<and> n \<le> 0)"
    by (auto simp: cgltf_parse_json_def split: if_splits)
  from assms alloc n c1 have a1: "alloc (sizeof_jsmntok_t * word_of_int n)"
    by (auto simp: cgltf_parse_json_def split: if_splits)
  let ?fill = "jsmn_parse jsmn_init js (Some (fresh_tokens (nat n)))"
  from assms alloc n c1 a1 obtain n2 p2 toks where fill: "?fill = Some (n2, p2, toks)"
    by (cases ?fill) (auto simp: cgltf_parse_json_def)
  from assms alloc n c1 a1 fill have c2: "\<not> n2 \<le> 0"
    by (auto simp: cgltf_parse_json_def split: if_splits)
  from assms alloc n c1 a1 fill c2 have a2: "alloc sizeof_cgltf_data"
    by (auto simp: cgltf_parse_json_def split: if_splits)
  obtain i data where dec: "cgltf_parse_json_root members (the toks) 0 js cgltf_data_zero = (i, data)"
    by (cases "cgltf_parse_json_root members (the toks) 0 js cgltf_data_zero") blast
  from assms alloc n c1 a1 fill c2 a2 dec have i: "\<not> i < 0"
    by (auto simp: cgltf_parse_json_def split: if_splits)
  from assms alloc n c1 a1 fill c2 a2 dec i obtain linked where
    linked: "cgltf_fixup_pointers data = Some linked" and g: "g = linked \<lparr> json := js \<rparr>"
    by (cases "cgltf_fixup_pointers data") (auto simp: cgltf_parse_json_def)
  have "decoded_graph members options js = Some (i, data)"
    using alloc n c1 a1 fill c2 a2 dec by (simp add: decoded_graph_def)
  with linked g show ?thesis by blast
qed




lemma parse_text_path:
  assumes "12 \<le> length js" "opt_type opts = cgltf_file_type_gltf" "memory_alloc opts = Some al"
  shows "cgltf_parse alloc members (Some opts) js =
         map_option
           (\<lambda>(r, out_data, freed).
              (r, map_option (\<lambda>root. root \<lparr> file_type := cgltf_file_type_gltf \<rparr>) out_data, freed))
           (cgltf_parse_json members opts js)"
proof -
  from assms(1) obtain tmp where "read_u32 js 0 = Some tmp" by (simp add: read_u32_def)
  with assms show ?thesis by (simp add: cgltf_parse_def GlbHeaderSize_def Let_def)
qed

lemma dangling_attribute:
  assumes "length (accessors d) = 3" "m \<in> set (meshes d)" "pr \<in> set (mesh_primitives m)"
    "a \<in> set (prim_attributes pr)" "attr_data a = Encoded 6"
  shows "\<not> references_ok d"
proof
  assume "references_ok d"
  then have "list_all (mesh_ok d) (meshes d)" by (simp add: references_ok_def)
  with assms(2) have "mesh_ok d m" by (simp add: list_all_iff)
  with assms(3) have "primitive_ok d pr" by (simp add: mesh_ok_def list_all_iff)
  with assms(4) have "attribute_ok d a" by (simp add: primitive_ok_def list_all_iff)
  with assms(1,5) show False by (simp add: attribute_ok_def)
qed

lemma references_violation:
  "\<not> references_ok d \<Longrightarrow> cgltf_fixup_pointers d = None"
  using fixup_pointers_references_ok [of d] by (cases "cgltf_fixup_pointers d") auto

lemma glb_json_call_parse:
  assumes "glb_json_call opts data = Some (opts', chunk)"
  shows "\<exists>b. parse_glb members opts data =
           map_option
             (\<lambda>(r, out_data, freed).
                (r, map_option (\<lambda>root. root \<lparr> file_type := cgltf_file_type_glb, bin := b \<rparr>)
                      out_data, freed))
             (cgltf_parse_json members opts' chunk)"
  using assms
  by (auto simp: glb_json_call_def parse_glb_def Let_def split: option.splits if_splits)

lemma parse_json_call_parse:
  assumes "parse_json_call alloc options data = Some (opts', chunk)"
  shows "\<exists>post. cgltf_parse alloc members options data =
           map_option (\<lambda>(r, out_data, freed). (r, map_option post out_data, freed))
             (cgltf_parse_json members opts' chunk)"
proof -
  from assms have len: "\<not> length data < GlbHeaderSize"
    by (auto simp: parse_json_call_def Let_def split: if_splits)
  from assms len obtain opts where opts: "options = Some opts"
    by (cases options) (auto simp: parse_json_call_def Let_def)
  let ?fixed = "(if memory_alloc opts = None then opts \<lparr> memory_alloc := Some alloc \<rparr> else opts)"
  from assms len opts obtain tmp where tmp: "read_u32 data 0 = Some tmp"
    by (cases "read_u32 data 0") (auto simp: parse_json_call_def Let_def)
  let ?fixed2 = "(if tmp \<noteq> GlbMagic \<and> opt_type ?fixed = cgltf_file_type_invalid
                  then ?fixed \<lparr> opt_type := cgltf_file_type_gltf \<rparr> else ?fixed)"
  from assms len opts tmp have pin: "\<not> (tmp \<noteq> GlbMagic \<and> opt_type ?fixed = cgltf_file_type_glb)"
    by (auto simp: parse_json_call_def Let_def split: if_splits)
  show ?thesis
  proof (cases "opt_type ?fixed2 = cgltf_file_type_gltf")
    case True
    with assms len opts tmp pin have c: "opts' = ?fixed2" "chunk = data"
      by (auto simp: parse_json_call_def Let_def split: if_splits)
    have "cgltf_parse alloc members options data =
           map_option
             (\<lambda>(r, out_data, freed).
                (r, map_option (\<lambda>root. root \<lparr> file_type := cgltf_file_type_gltf \<rparr>) out_data,
                 freed))
             (cgltf_parse_json members ?fixed2 data)"
      using len opts tmp pin True by (auto simp: cgltf_parse_def Let_def)
    then show ?thesis unfolding c by blast
  next
    case False
    with assms len opts tmp pin have g: "glb_json_call ?fixed2 data = Some (opts', chunk)"
      by (auto simp: parse_json_call_def Let_def split: if_splits)
    have "cgltf_parse alloc members options data = parse_glb members ?fixed2 data"
      using len opts tmp pin False by (auto simp: cgltf_parse_def Let_def)
    with glb_json_call_parse [OF g, of members] show ?thesis by metis
  qed
qed

lemma parse_json_call_error:
  assumes "parse_json_call alloc options data = Some (opts', chunk)"
    and "cgltf_parse_json members opts' chunk = Some (r, None, freed)"
  shows "cgltf_parse alloc members options data = Some (r, None, freed)"
  using parse_json_call_parse [OF assms(1), of members] assms(2) by auto

lemma glb_success_call:
  assumes "parse_glb members opts data = Some (cgltf_result_success, Some g, freed)"
  shows "\<exists>chunk g'. glb_json_call opts data = Some (opts, chunk)
           \<and> cgltf_parse_json members opts chunk = Some (cgltf_result_success, Some g', freed)"
  using assms
  by (auto simp: parse_glb_def glb_json_call_def Let_def split: option.splits if_splits)

lemma parse_success_call:
  assumes "cgltf_parse alloc members options data = Some (cgltf_result_success, Some g, freed)"
  shows "\<exists>opts' chunk g'. parse_json_call alloc options data = Some (opts', chunk)
           \<and> cgltf_parse_json members opts' chunk = Some (cgltf_result_success, Some g', freed)"
proof -
  from assms have len: "\<not> length data < GlbHeaderSize"
    by (auto simp: cgltf_parse_def Let_def split: if_splits)
  from assms len obtain opts where opts: "options = Some opts"
    by (cases options) (auto simp: cgltf_parse_def Let_def)
  let ?fixed = "(if memory_alloc opts = None then opts \<lparr> memory_alloc := Some alloc \<rparr> else opts)"
  from assms len opts obtain tmp where tmp: "read_u32 data 0 = Some tmp"
    by (cases "read_u32 data 0") (auto simp: cgltf_parse_def Let_def)
  let ?fixed2 = "(if tmp \<noteq> GlbMagic \<and> opt_type ?fixed = cgltf_file_type_invalid
                  then ?fixed \<lparr> opt_type := cgltf_file_type_gltf \<rparr> else ?fixed)"
  from assms len opts tmp have pin: "\<not> (tmp \<noteq> GlbMagic \<and> opt_type ?fixed = cgltf_file_type_glb)"
    by (auto simp: cgltf_parse_def Let_def split: if_splits)
  show ?thesis
  proof (cases "opt_type ?fixed2 = cgltf_file_type_gltf")
    case True
    then have call: "parse_json_call alloc options data = Some (?fixed2, data)"
      using len opts tmp pin by (auto simp: parse_json_call_def Let_def)
    have "cgltf_parse alloc members options data =
           map_option
             (\<lambda>(r, out_data, freed).
                (r, map_option (\<lambda>root. root \<lparr> file_type := cgltf_file_type_gltf \<rparr>) out_data,
                 freed))
             (cgltf_parse_json members ?fixed2 data)"
      using len opts tmp pin True by (auto simp: cgltf_parse_def Let_def)
    with assms obtain g' where
      "cgltf_parse_json members ?fixed2 data = Some (cgltf_result_success, Some g', freed)"
      by auto
    with call show ?thesis by blast
  next
    case False
    then have call: "parse_json_call alloc options data = glb_json_call ?fixed2 data"
      using len opts tmp pin by (auto simp: parse_json_call_def Let_def)
    have "cgltf_parse alloc members options data = parse_glb members ?fixed2 data"
      using len opts tmp pin False by (auto simp: cgltf_parse_def Let_def)
    with assms have "parse_glb members ?fixed2 data = Some (cgltf_result_success, Some g, freed)"
      by simp
    from glb_success_call [OF this] call show ?thesis by metis
  qed
qed

text \<open>
  C1: the required macro accepts exactly the encodings that are nonzero and at most the
  length of the owning array, the optional macro exactly those that are zero or at most
  the length, and a zero optional encoding stays the null pointer. A graph in which some
  edge violates its policy makes \<open>cgltf_fixup_pointers\<close> fail. When the decoder has
  produced such a graph, \<open>cgltf_parse_json\<close> returns invalid-gltf with no root after
  calling \<open>cgltf_free\<close> on the graph, and so does \<open>cgltf_parse\<close> in every run that
  calls \<open>cgltf_parse_json\<close>: with any options (a pinned or a detected file type, the
  caller's allocator or the default one) and on the text path as on the binary path.
  Conversely every successful \<open>cgltf_parse\<close> has decoded a graph in which every edge
  satisfies its policy. A primitive attribute on accessor index 5 (encoding 6) in a graph
  of 3 accessors is a violation.
\<close>

theorem fixup_reference_policies:
  "(CGLTF_PTRFIXUP_REQ p n \<noteq> None) = required_ok p n
   \<and> (CGLTF_PTRFIXUP p n \<noteq> None) = optional_ok p n
   \<and> CGLTF_PTRFIXUP NULL n = Some NULL
   \<and> (\<not> references_ok d \<longrightarrow> cgltf_fixup_pointers d = None)
   \<and> (decoded_graph members options js = Some (i, d) \<and> 0 \<le> i \<and> \<not> references_ok d \<longrightarrow>
        cgltf_parse_json members options js = Some (cgltf_result_invalid_gltf, None, True))
   \<and> (12 \<le> length js \<and> opt_type options = cgltf_file_type_gltf
        \<and> memory_alloc options = Some al
        \<and> decoded_graph members options js = Some (i, d) \<and> 0 \<le> i \<and> \<not> references_ok d \<longrightarrow>
        cgltf_parse alloc members (Some options) js = Some (cgltf_result_invalid_gltf, None, True))
   \<and> (parse_json_call alloc given_options data = Some (options, js)
        \<and> decoded_graph members options js = Some (i, d) \<and> 0 \<le> i \<and> \<not> references_ok d \<longrightarrow>
        cgltf_parse alloc members given_options data =
          Some (cgltf_result_invalid_gltf, None, True))
   \<and> (cgltf_parse alloc members given_options data = Some (cgltf_result_success, Some g, freed)
        \<longrightarrow> (\<exists>options' js' i' d'.
               parse_json_call alloc given_options data = Some (options', js')
               \<and> decoded_graph members options' js' = Some (i', d') \<and> references_ok d'))
   \<and> (length (accessors d) = 3 \<and> m \<in> set (meshes d) \<and> pr \<in> set (mesh_primitives m)
        \<and> a \<in> set (prim_attributes pr) \<and> attr_data a = Encoded 6 \<longrightarrow>
        \<not> references_ok d \<and> cgltf_fixup_pointers d = None)"
proof (intro conjI impI)
  show "(CGLTF_PTRFIXUP_REQ p n \<noteq> None) = required_ok p n" by (rule fixup_req_ok)
  show "(CGLTF_PTRFIXUP p n \<noteq> None) = optional_ok p n" by (rule fixup_opt_ok)
  show "CGLTF_PTRFIXUP NULL n = Some NULL" by simp
next
  assume "\<not> references_ok d"
  then show "cgltf_fixup_pointers d = None" by (rule references_violation)
next
  assume a: "decoded_graph members options js = Some (i, d) \<and> 0 \<le> i \<and> \<not> references_ok d"
  then have "cgltf_fixup_pointers d = None" by (intro references_violation) simp
  with a parse_json_decoded [of members options js i d]
  show "cgltf_parse_json members options js = Some (cgltf_result_invalid_gltf, None, True)"
    by simp
next
  assume a: "12 \<le> length js \<and> opt_type options = cgltf_file_type_gltf
        \<and> memory_alloc options = Some al
        \<and> decoded_graph members options js = Some (i, d) \<and> 0 \<le> i \<and> \<not> references_ok d"
  then have "cgltf_fixup_pointers d = None" by (intro references_violation) simp
  with a parse_json_decoded [of members options js i d]
  have "cgltf_parse_json members options js = Some (cgltf_result_invalid_gltf, None, True)"
    by simp
  with a parse_text_path [of js options al alloc members]
  show "cgltf_parse alloc members (Some options) js = Some (cgltf_result_invalid_gltf, None, True)"
    by simp
next
  assume a: "parse_json_call alloc given_options data = Some (options, js)
        \<and> decoded_graph members options js = Some (i, d) \<and> 0 \<le> i \<and> \<not> references_ok d"
  then have "cgltf_fixup_pointers d = None" by (intro references_violation) simp
  with a parse_json_decoded [of members options js i d]
  have "cgltf_parse_json members options js = Some (cgltf_result_invalid_gltf, None, True)"
    by simp
  with a show "cgltf_parse alloc members given_options data =
      Some (cgltf_result_invalid_gltf, None, True)"
    by (intro parse_json_call_error [of alloc given_options data options js]) simp_all
next
  assume "cgltf_parse alloc members given_options data = Some (cgltf_result_success, Some g, freed)"
  from parse_success_call [OF this] obtain options' js' g' where
    call: "parse_json_call alloc given_options data = Some (options', js')"
    and run: "cgltf_parse_json members options' js' = Some (cgltf_result_success, Some g', freed)"
    by blast
  from parse_json_success [OF run] obtain i' d' linked where
    dec: "decoded_graph members options' js' = Some (i', d')"
    and linked: "cgltf_fixup_pointers d' = Some linked"
    by blast
  from fixup_pointers_references_ok [OF linked] call dec
  show "\<exists>options' js' i' d'.
          parse_json_call alloc given_options data = Some (options', js')
          \<and> decoded_graph members options' js' = Some (i', d') \<and> references_ok d'"
    by blast
next
  assume a: "length (accessors d) = 3 \<and> m \<in> set (meshes d) \<and> pr \<in> set (mesh_primitives m)
        \<and> a \<in> set (prim_attributes pr) \<and> attr_data a = Encoded 6"
  then show "\<not> references_ok d" by (intro dangling_attribute [of d m pr a]) simp_all
  then show "cgltf_fixup_pointers d = None" by (rule references_violation)
qed

theorem fixup_reference_policies_witness:
  "parse_json_call always_alloc (Some zero_options) (map of_char ''{\"asset\":{}}'') =
     Some (\<lparr> opt_type = cgltf_file_type_gltf, json_token_count = 0,
             memory_alloc = Some always_alloc \<rparr>, map of_char ''{\"asset\":{}}'')
   \<and> parse_json_call always_alloc (Some zero_options) glb_document =
     Some (\<lparr> opt_type = cgltf_file_type_invalid, json_token_count = 0,
             memory_alloc = Some always_alloc \<rparr>, map of_char ''{\"asset\":{}}'')
   \<and> decoded_graph dangling_members
        \<lparr> opt_type = cgltf_file_type_gltf, json_token_count = 0,
          memory_alloc = Some always_alloc \<rparr> (map of_char ''{\"asset\":{}}'') =
       Some (1, dangling_data)
   \<and> decoded_graph dangling_members
        \<lparr> opt_type = cgltf_file_type_invalid, json_token_count = 0,
          memory_alloc = Some always_alloc \<rparr> (map of_char ''{\"asset\":{}}'') =
       Some (1, dangling_data)
   \<and> \<not> references_ok dangling_data
   \<and> cgltf_fixup_pointers dangling_data = None
   \<and> cgltf_parse always_alloc dangling_members (Some zero_options)
       (map of_char ''{\"asset\":{}}'') = Some (cgltf_result_invalid_gltf, None, True)
   \<and> cgltf_parse always_alloc dangling_members (Some zero_options) glb_document =
       Some (cgltf_result_invalid_gltf, None, True)"
proof -
  let ?t = "\<lparr> opt_type = cgltf_file_type_gltf, json_token_count = 0,
              memory_alloc = Some always_alloc \<rparr>"
  let ?b = "\<lparr> opt_type = cgltf_file_type_invalid, json_token_count = 0,
              memory_alloc = Some always_alloc \<rparr>"
  let ?js = "map of_char ''{\"asset\":{}}'' :: byte list"
  have call_t: "parse_json_call always_alloc (Some zero_options) ?js = Some (?t, ?js)"
    by (simp add: parse_json_call_def zero_options_def GlbHeaderSize_def read_u32_def
        GlbMagic_def Let_def)
  have call_b: "parse_json_call always_alloc (Some zero_options) glb_document = Some (?b, ?js)"
    by (simp add: parse_json_call_def glb_json_call_def zero_options_def glb_document_def
        GlbHeaderSize_def GlbChunkHeaderSize_def read_u32_def GlbMagic_def GlbVersion_def
        GlbMagicJsonChunk_def Let_def)
  have dec_t: "decoded_graph dangling_members ?t ?js = Some (1, dangling_data)"
    by code_simp
  have dec_b: "decoded_graph dangling_members ?b ?js = Some (1, dangling_data)"
    by code_simp
  have bad: "\<not> references_ok dangling_data"
    by code_simp
  from fixup_reference_policies [where d = dangling_data and members = dangling_members
      and options = ?t and js = ?js and i = 1 and alloc = always_alloc
      and given_options = "Some zero_options" and data = ?js] call_t dec_t bad
  have t: "cgltf_fixup_pointers dangling_data = None
         \<and> cgltf_parse always_alloc dangling_members (Some zero_options) ?js =
             Some (cgltf_result_invalid_gltf, None, True)"
    by simp
  from fixup_reference_policies [where d = dangling_data and members = dangling_members
      and options = ?b and js = ?js and i = 1 and alloc = always_alloc
      and given_options = "Some zero_options" and data = glb_document] call_b dec_b bad
  have b: "cgltf_parse always_alloc dangling_members (Some zero_options) glb_document =
             Some (cgltf_result_invalid_gltf, None, True)"
    by simp
  from call_t call_b dec_t dec_b bad t b show ?thesis by simp
qed

subsection \<open>The scene forest\<close>









subsection \<open>The two passes of the tokeniser\<close>

lemma close_bracket_links:
  assumes "i < length toks"
    and "\<forall>k\<le>i. - 1 \<le> tok_parent (toks ! k) \<and> tok_parent (toks ! k) < int k"
  shows "(\<exists>e. close_bracket toks type p super i = Some (Inl e) \<and> e = JSMN_ERROR_INVAL)
       \<or> (\<exists>toks' super'. close_bracket toks type p super i = Some (Inr (toks', super'))
             \<and> length toks' = length toks
             \<and> (\<forall>k<length toks. tok_parent (toks' ! k) = tok_parent (toks ! k))
             \<and> (super' = super \<or> (\<exists>k\<le>i. super' = tok_parent (toks ! k))))"
  using assms
proof (induction i rule: less_induct)
  case (less i)
  let ?t = "toks ! i"
  from less.prems have par: "- 1 \<le> tok_parent ?t" "tok_parent ?t < int i" by auto
  show ?case
  proof (cases "tok_start ?t \<noteq> - 1 \<and> tok_end ?t = - 1")
    case True
    then show ?thesis
      using less.prems(1)
      by (subst close_bracket.simps, subst (2) close_bracket.simps)
        (auto simp: JSMN_ERROR_INVAL_def nth_list_update)
  next
    case open': False
    show ?thesis
    proof (cases "tok_parent ?t = - 1")
      case True
      with open' show ?thesis
        using less.prems(1)
        by (subst close_bracket.simps, subst (2) close_bracket.simps)
          (auto simp: JSMN_ERROR_INVAL_def)
    next
      case False
      with par have rng: "0 \<le> tok_parent ?t" "tok_parent ?t < int i" by simp_all
      let ?j = "nat (tok_parent ?t)"
      have j: "?j < i" using rng by simp
      have eq: "close_bracket toks type p super i = close_bracket toks type p super ?j"
        using open' False rng less.prems(1) by (subst close_bracket.simps) auto
      have "(\<exists>e. close_bracket toks type p super ?j = Some (Inl e) \<and> e = JSMN_ERROR_INVAL)
       \<or> (\<exists>toks' super'. close_bracket toks type p super ?j = Some (Inr (toks', super'))
             \<and> length toks' = length toks
             \<and> (\<forall>k<length toks. tok_parent (toks' ! k) = tok_parent (toks ! k))
             \<and> (super' = super \<or> (\<exists>k\<le>?j. super' = tok_parent (toks ! k))))"
        using j less.prems by (intro less.IH) auto
      moreover have "k \<le> i" if "k \<le> ?j" for k using that j by simp
      ultimately show ?thesis
        unfolding eq by blast
    qed
  qed
qed


lemma wf_extend:
  assumes "wf_tokens p toks"
    and "toknext p' = Suc (toknext p)" and "toknext p < length toks"
    and "length toks' = length toks"
    and "\<forall>k<toknext p. tok_parent (toks' ! k) = tok_parent (toks ! k)"
    and "tok_parent (toks' ! toknext p) = - 1 \<or> tok_parent (toks' ! toknext p) = toksuper p"
    and "toksuper p' = toksuper p \<or> toksuper p' = int (toknext p)"
  shows "wf_tokens p' toks'"
  using assms unfolding wf_tokens_def
  by (auto simp: less_Suc_eq)

lemma wf_same:
  assumes "wf_tokens p toks"
    and "toknext p' = toknext p"
    and "length toks' = length toks"
    and "\<forall>k<toknext p. tok_parent (toks' ! k) = tok_parent (toks ! k)"
    and "- 1 \<le> toksuper p'" and "toksuper p' < int (toknext p)"
  shows "wf_tokens p' toks'"
  using assms unfolding wf_tokens_def by auto

lemma count_child_parent:
  "count_child p (Some toks) = Some toks' \<Longrightarrow>
   length toks' = length toks \<and> (\<forall>k. tok_parent (toks' ! k) = tok_parent (toks ! k))"
  by (cases "nat (toksuper p) < length toks")
    (auto simp: count_child_def nth_list_update list_update_beyond split: if_splits)

lemma count_child_Some: "\<exists>toks'. count_child p (Some toks) = Some toks'"
  by (simp add: count_child_def)

lemma sim_open:
  assumes wf: "wf_tokens pF toks" and pos: "pos pN = pos pF"
  shows "step_sim cN cF pF toks (case_open c pN None cN) (case_open c pF (Some toks) cF)"
proof (cases "jsmn_alloc_token pF toks")
  case None
  then have "length toks \<le> toknext pF"
    by (auto simp: jsmn_alloc_token_def Let_def split: if_splits)
  with None show ?thesis
    by (simp add: step_sim_def case_open_def JSMN_ERROR_NOMEM_def)
next
  case (Some a)
  then obtain p1 toks1 t where a: "a = (p1, toks1, t)" by (cases a) auto
  from Some a have t: "t = toknext pF" "t < length toks"
    and p1: "p1 = pF \<lparr> toknext := Suc t \<rparr>"
    and toks1: "toks1 = toks[t := (toks ! t) \<lparr> tok_start := - 1, tok_end := - 1, tok_size := 0,
                                            tok_parent := - 1 \<rparr>]"
    by (auto simp: jsmn_alloc_token_def Let_def split: if_splits)
  obtain toksc where toksc: "count_child p1 (Some toks1) = Some toksc"
    using count_child_Some by blast
  from count_child_parent [OF toksc] have cl: "length toksc = length toks1"
    and cp: "\<And>k. tok_parent (toksc ! k) = tok_parent (toks1 ! k)" by simp_all
  let ?toks2 = "(if toksuper p1 \<noteq> - 1 then toksc[t := (toksc ! t) \<lparr> tok_parent := toksuper p1 \<rparr>]
                 else toks1)"
  let ?toks3 = "?toks2[t := (?toks2 ! t)
                  \<lparr> tok_type := (if c = ch CHR ''{'' then JSMN_OBJECT else JSMN_ARRAY),
                    tok_start := int (pos p1) \<rparr>]"
  let ?p2 = "p1 \<lparr> toksuper := int (toknext p1) - 1 \<rparr>"
  have fill: "case_open c pF (Some toks) cF = Continue ?p2 (Some ?toks3) (cF + 1)"
    using Some a toksc by (simp add: case_open_def Let_def)
  have len3: "length ?toks3 = length toks" using toks1 cl by simp
  have old: "\<forall>k<toknext pF. tok_parent (?toks3 ! k) = tok_parent (toks ! k)"
    using t toks1 cl cp by (auto simp: nth_list_update)
  have new: "tok_parent (?toks3 ! toknext pF) = - 1 \<or> tok_parent (?toks3 ! toknext pF) = toksuper pF"
    using t toks1 cl cp p1 by (auto simp: nth_list_update)
  have wf': "wf_tokens ?p2 ?toks3"
    by (rule wf_extend [OF wf _ _ len3 old new]) (use t p1 in auto)
  show ?thesis
    unfolding fill using wf' len3 pos p1 t
    by (simp add: step_sim_def case_open_def)
qed

lemma sim_close:
  assumes wf: "wf_tokens pF toks" and pos: "pos pN = pos pF"
  shows "step_sim cN cF pF toks (case_close c pN None cN) (case_close c pF (Some toks) cF)"
proof (cases "toknext pF < 1")
  case True
  then show ?thesis
    by (simp add: step_sim_def case_close_def JSMN_ERROR_INVAL_def JSMN_ERROR_NOMEM_def)
next
  case False
  let ?i = "toknext pF - 1"
  let ?type = "(if c = ch CHR ''}'' then JSMN_OBJECT else JSMN_ARRAY)"
  from False wf have i: "?i < length toks"
    and links: "\<forall>k\<le>?i. - 1 \<le> tok_parent (toks ! k) \<and> tok_parent (toks ! k) < int k"
    unfolding wf_tokens_def by auto
  from close_bracket_links [OF i links, of ?type "pos pF" "toksuper pF"]
  consider (err) "close_bracket toks ?type (pos pF) (toksuper pF) ?i = Some (Inl JSMN_ERROR_INVAL)"
    | (ok) toks' super' where
      "close_bracket toks ?type (pos pF) (toksuper pF) ?i = Some (Inr (toks', super'))"
      "length toks' = length toks"
      "\<forall>k<length toks. tok_parent (toks' ! k) = tok_parent (toks ! k)"
      "super' = toksuper pF \<or> (\<exists>k\<le>?i. super' = tok_parent (toks ! k))"
    by blast
  then show ?thesis
  proof cases
    case err
    with False show ?thesis
      by (auto simp: step_sim_def case_close_def JSMN_ERROR_NOMEM_def JSMN_ERROR_INVAL_def)
  next
    case ok
    note cb = ok(1) and len = ok(2) and par = ok(3) and sup = ok(4)
    have fill: "case_close c pF (Some toks) cF =
                Continue (pF \<lparr> toksuper := super' \<rparr>) (Some toks') cF"
      using False cb by (simp add: case_close_def)
    have s1: "- 1 \<le> super'" using sup links wf unfolding wf_tokens_def by auto
    have s2: "super' < int (toknext pF)"
    proof -
      from sup consider "super' = toksuper pF" | k where "k \<le> ?i" "super' = tok_parent (toks ! k)"
        by blast
      then show ?thesis
      proof cases
        case 1
        with wf show ?thesis unfolding wf_tokens_def by simp
      next
        case 2
        with links have "super' < int k" by simp
        with 2 False show ?thesis by simp
      qed
    qed
    have wf': "wf_tokens (pF \<lparr> toksuper := super' \<rparr>) toks'"
      by (rule wf_same [OF wf _ len]) (use par s1 s2 wf in \<open>auto simp: wf_tokens_def\<close>)
    show ?thesis
      unfolding fill using wf' len pos by (simp add: step_sim_def case_close_def)
  qed
qed


lemma sim_token:
  assumes wf: "wf_tokens pF toks" and pos: "pos pN = pos pF"
    and nul: "rN = (0, pN \<lparr> pos := e \<rparr>, None)"
    and fill: "rF = (case jsmn_alloc_token pF toks of
                  None \<Rightarrow> (JSMN_ERROR_NOMEM, pF \<lparr> pos := start \<rparr>, Some toks)
                | Some (parser1, toks1, t) \<Rightarrow>
                    (0, parser1 \<lparr> pos := e \<rparr>,
                     Some (toks1[t := (jsmn_fill_token (toks1 ! t) type a b)
                                      \<lparr> tok_parent := toksuper parser1 \<rparr>])))"
  shows "step_sim cN cF pF toks
           (case rN of (r, parser1, tokens1) \<Rightarrow>
              if r < 0 then Return r parser1 tokens1
              else Continue parser1 (count_child parser1 tokens1) (cN + 1))
           (case rF of (r, parser1, tokens1) \<Rightarrow>
              if r < 0 then Return r parser1 tokens1
              else Continue parser1 (count_child parser1 tokens1) (cF + 1))"
proof (cases "jsmn_alloc_token pF toks")
  case None
  then have "length toks \<le> toknext pF"
    by (auto simp: jsmn_alloc_token_def Let_def split: if_splits)
  with None show ?thesis
    unfolding nul fill
    by (simp add: step_sim_def JSMN_ERROR_NOMEM_def count_child_def)
next
  case (Some x)
  then obtain p1 toks1 t where x: "x = (p1, toks1, t)" by (cases x) auto
  from Some x have t: "t = toknext pF" "t < length toks"
    and p1: "p1 = pF \<lparr> toknext := Suc t \<rparr>"
    and toks1: "toks1 = toks[t := (toks ! t) \<lparr> tok_start := - 1, tok_end := - 1, tok_size := 0,
                                            tok_parent := - 1 \<rparr>]"
    by (auto simp: jsmn_alloc_token_def Let_def split: if_splits)
  let ?toks2 = "toks1[t := (jsmn_fill_token (toks1 ! t) type a b) \<lparr> tok_parent := toksuper p1 \<rparr>]"
  let ?p2 = "p1 \<lparr> pos := e \<rparr>"
  obtain toksc where toksc: "count_child ?p2 (Some ?toks2) = Some toksc"
    using count_child_Some by blast
  from count_child_parent [OF toksc] have cl: "length toksc = length ?toks2"
    and cp: "\<And>k. tok_parent (toksc ! k) = tok_parent (?toks2 ! k)" by simp_all
  have rF: "rF = (0, ?p2, Some ?toks2)"
    unfolding fill using Some x by simp
  have len: "length toksc = length toks" using cl toks1 by simp
  have old: "\<forall>k<toknext pF. tok_parent (toksc ! k) = tok_parent (toks ! k)"
    using t toks1 cp by (auto simp: nth_list_update)
  have new: "tok_parent (toksc ! toknext pF) = - 1 \<or> tok_parent (toksc ! toknext pF) = toksuper pF"
    using t toks1 cp p1 by (auto simp: nth_list_update jsmn_fill_token_def)
  have wf': "wf_tokens ?p2 toksc"
    by (rule wf_extend [OF wf _ _ len old new]) (use t p1 in auto)
  show ?thesis
    unfolding rF nul using wf' len pos p1 t toksc
    by (simp add: step_sim_def count_child_def)
qed

lemma sim_quote:
  assumes wf: "wf_tokens pF toks" and pos: "pos pN = pos pF"
  shows "step_sim cN cF pF toks (case_quote js pN None cN) (case_quote js pF (Some toks) cF)"
proof (cases "string_scan js (pos pF + 1)")
  case (Inl err)
  with string_scan_error [OF Inl] show ?thesis
    by (simp add: step_sim_def case_quote_def jsmn_parse_string_def Let_def pos)
next
  case (Inr e)
  have nul: "jsmn_parse_string pN js None = (0, pN \<lparr> pos := e \<rparr>, None)"
    using Inr by (simp add: jsmn_parse_string_def Let_def pos)
  have fill: "jsmn_parse_string pF js (Some toks) =
      (case jsmn_alloc_token pF toks of
         None \<Rightarrow> (JSMN_ERROR_NOMEM, pF \<lparr> pos := pos pF \<rparr>, Some toks)
       | Some (parser1, toks1, t) \<Rightarrow>
           (0, parser1 \<lparr> pos := e \<rparr>,
            Some (toks1[t := (jsmn_fill_token (toks1 ! t) JSMN_STRING (int (pos pF) + 1) (int e))
                             \<lparr> tok_parent := toksuper parser1 \<rparr>])))"
    using Inr by (simp add: jsmn_parse_string_def Let_def)
  from sim_token [OF wf pos nul fill] show ?thesis
    unfolding case_quote_def .
qed

lemma sim_default:
  assumes wf: "wf_tokens pF toks" and pos: "pos pN = pos pF"
  shows "step_sim cN cF pF toks (case_default js pN None cN) (case_default js pF (Some toks) cF)"
proof (cases "prim_scan js (pos pF)")
  case None
  then show ?thesis
    by (simp add: step_sim_def case_default_def jsmn_parse_primitive_def Let_def pos
        JSMN_ERROR_INVAL_def)
next
  case (Some e)
  have nul: "jsmn_parse_primitive pN js None = (0, pN \<lparr> pos := e - 1 \<rparr>, None)"
    using Some by (simp add: jsmn_parse_primitive_def Let_def pos)
  have fill: "jsmn_parse_primitive pF js (Some toks) =
      (case jsmn_alloc_token pF toks of
         None \<Rightarrow> (JSMN_ERROR_NOMEM, pF \<lparr> pos := pos pF \<rparr>, Some toks)
       | Some (parser1, toks1, t) \<Rightarrow>
           (0, parser1 \<lparr> pos := e - 1 \<rparr>,
            Some (toks1[t := (jsmn_fill_token (toks1 ! t) JSMN_PRIMITIVE (int (pos pF)) (int e))
                             \<lparr> tok_parent := toksuper parser1 \<rparr>])))"
    using Some by (simp add: jsmn_parse_primitive_def Let_def)
  from sim_token [OF wf pos nul fill] show ?thesis
    unfolding case_default_def .
qed

lemma sim_colon:
  assumes wf: "wf_tokens pF toks" and pos: "pos pN = pos pF"
  shows "step_sim cN cF pF toks (case_colon pN None cN) (case_colon pF (Some toks) cF)"
proof -
  have "wf_tokens (pF \<lparr> toksuper := int (toknext pF) - 1 \<rparr>) toks"
    using wf unfolding wf_tokens_def by auto
  then show ?thesis
    using pos by (simp add: step_sim_def case_colon_def)
qed

lemma sim_comma:
  assumes wf: "wf_tokens pF toks" and pos: "pos pN = pos pF"
  shows "step_sim cN cF pF toks (case_comma pN None cN) (case_comma pF (Some toks) cF)"
proof (cases "toksuper pF \<noteq> - 1
             \<and> tok_type (toks ! nat (toksuper pF)) \<noteq> JSMN_ARRAY
             \<and> tok_type (toks ! nat (toksuper pF)) \<noteq> JSMN_OBJECT")
  case False
  then have "case_comma pF (Some toks) cF = Continue pF (Some toks) cF"
    by (auto simp: case_comma_def)
  then show ?thesis using wf pos by (simp add: step_sim_def case_comma_def)
next
  case True
  let ?s = "nat (toksuper pF)"
  from True wf have s: "?s < toknext pF" "int ?s = toksuper pF"
    unfolding wf_tokens_def by auto
  with wf have par: "- 1 \<le> tok_parent (toks ! ?s)" "tok_parent (toks ! ?s) < int ?s"
    unfolding wf_tokens_def by auto
  have "wf_tokens (pF \<lparr> toksuper := tok_parent (toks ! ?s) \<rparr>) toks"
    by (rule wf_same [OF wf]) (use par s in auto)
  moreover have "case_comma pF (Some toks) cF =
      Continue (pF \<lparr> toksuper := tok_parent (toks ! ?s) \<rparr>) (Some toks) cF"
    using True by (auto simp: case_comma_def)
  ultimately show ?thesis using pos by (simp add: step_sim_def case_comma_def)
qed

lemma step_simulation:
  assumes wf: "wf_tokens pF toks" and pos: "pos pN = pos pF"
  shows "step_sim cN cF pF toks (jsmn_parse_step js pN None cN)
           (jsmn_parse_step js pF (Some toks) cF)"
proof -
  let ?c = "js ! pos pF"
  consider (open') "?c = ch CHR ''{'' \<or> ?c = ch CHR ''[''"
    | (close') "\<not> (?c = ch CHR ''{'' \<or> ?c = ch CHR ''['')" "?c = ch CHR ''}'' \<or> ?c = ch CHR '']''"
    | (quote) "\<not> (?c = ch CHR ''{'' \<or> ?c = ch CHR ''['')" "\<not> (?c = ch CHR ''}'' \<or> ?c = ch CHR '']'')"
        "?c = 0x22"
    | (space) "\<not> (?c = ch CHR ''{'' \<or> ?c = ch CHR ''['')" "\<not> (?c = ch CHR ''}'' \<or> ?c = ch CHR '']'')"
        "?c \<noteq> 0x22" "?c = 0x09 \<or> ?c = 0x0D \<or> ?c = 0x0A \<or> ?c = ch CHR '' ''"
    | (colon) "\<not> (?c = ch CHR ''{'' \<or> ?c = ch CHR ''['')" "\<not> (?c = ch CHR ''}'' \<or> ?c = ch CHR '']'')"
        "?c \<noteq> 0x22" "\<not> (?c = 0x09 \<or> ?c = 0x0D \<or> ?c = 0x0A \<or> ?c = ch CHR '' '')"
        "?c = ch CHR '':''"
    | (comma) "\<not> (?c = ch CHR ''{'' \<or> ?c = ch CHR ''['')" "\<not> (?c = ch CHR ''}'' \<or> ?c = ch CHR '']'')"
        "?c \<noteq> 0x22" "\<not> (?c = 0x09 \<or> ?c = 0x0D \<or> ?c = 0x0A \<or> ?c = ch CHR '' '')"
        "?c \<noteq> ch CHR '':''" "?c = ch CHR '',''"
    | (other) "\<not> (?c = ch CHR ''{'' \<or> ?c = ch CHR ''['')" "\<not> (?c = ch CHR ''}'' \<or> ?c = ch CHR '']'')"
        "?c \<noteq> 0x22" "\<not> (?c = 0x09 \<or> ?c = 0x0D \<or> ?c = 0x0A \<or> ?c = ch CHR '' '')"
        "?c \<noteq> ch CHR '':''" "?c \<noteq> ch CHR '',''"
    by blast
  then show ?thesis
  proof cases
    case open'
    then have "jsmn_parse_step js pN None cN = case_open ?c pN None cN"
      "jsmn_parse_step js pF (Some toks) cF = case_open ?c pF (Some toks) cF"
      by (auto simp: jsmn_parse_step_def Let_def pos)
    with sim_open [OF wf pos] show ?thesis by simp
  next
    case close'
    then have "jsmn_parse_step js pN None cN = case_close ?c pN None cN"
      "jsmn_parse_step js pF (Some toks) cF = case_close ?c pF (Some toks) cF"
      by (auto simp: jsmn_parse_step_def Let_def pos)
    with sim_close [OF wf pos] show ?thesis by simp
  next
    case quote
    then have "jsmn_parse_step js pN None cN = case_quote js pN None cN"
      "jsmn_parse_step js pF (Some toks) cF = case_quote js pF (Some toks) cF"
      by (auto simp: jsmn_parse_step_def Let_def pos)
    with sim_quote [OF wf pos] show ?thesis by simp
  next
    case space
    then have "jsmn_parse_step js pN None cN = Continue pN None cN"
      "jsmn_parse_step js pF (Some toks) cF = Continue pF (Some toks) cF"
      by (auto simp: jsmn_parse_step_def Let_def pos)
    with wf pos show ?thesis by (simp add: step_sim_def)
  next
    case colon
    then have "jsmn_parse_step js pN None cN = case_colon pN None cN"
      "jsmn_parse_step js pF (Some toks) cF = case_colon pF (Some toks) cF"
      by (auto simp: jsmn_parse_step_def Let_def pos)
    with sim_colon [OF wf pos] show ?thesis by simp
  next
    case comma
    then have "jsmn_parse_step js pN None cN = case_comma pN None cN"
      "jsmn_parse_step js pF (Some toks) cF = case_comma pF (Some toks) cF"
      by (auto simp: jsmn_parse_step_def Let_def pos)
    with sim_comma [OF wf pos] show ?thesis by simp
  next
    case other
    then have "jsmn_parse_step js pN None cN = case_default js pN None cN"
      "jsmn_parse_step js pF (Some toks) cF = case_default js pF (Some toks) cF"
      by (auto simp: jsmn_parse_step_def Let_def pos)
    with sim_default [OF wf pos] show ?thesis by simp
  qed
qed


lemma wf_tokens_pos: "wf_tokens (p \<lparr> pos := x \<rparr>) toks = wf_tokens p toks"
  by (simp add: wf_tokens_def)

lemma null_step:
  "case jsmn_parse_step js pN None cN of
     Stuck \<Rightarrow> False
   | Return r _ _ \<Rightarrow> r < 0
   | Continue p t c \<Rightarrow> t = None \<and> (c = cN \<or> c = cN + 1)"
proof -
  have "wf_tokens \<lparr> pos = pos pN, toknext = 0, toksuper = - 1 \<rparr> []"
    by (simp add: wf_tokens_def)
  from step_simulation [where pN = pN and cN = cN and cF = 0 and js = js, OF this]
  show ?thesis
    by (auto simp: step_sim_def split: jsmn_step.splits)
qed

lemma null_loop_ge:
  assumes "jsmn_parse_loop js pN None cN = Some (n, p, t)" and "0 \<le> n"
  shows "cN \<le> n"
  using assms
proof (induction "length js - pos pN" arbitrary: pN cN rule: less_induct)
  case less
  show ?case
  proof (cases "pos pN < length js \<and> js ! pos pN \<noteq> 0")
    case False
    with less.prems(1) have "jsmn_parse_end pN None cN = (n, p, t)"
      by (subst (asm) jsmn_parse_loop.simps) simp
    then show ?thesis by (simp add: jsmn_parse_end_def)
  next
    case True
    show ?thesis
    proof (cases "jsmn_parse_step js pN None cN")
      case (Return r p1 t1)
      with null_step [where js = js and pN = pN and cN = cN] have "r < 0" by simp
      moreover from True less.prems(1) Return have "n = r"
        by (subst (asm) jsmn_parse_loop.simps) simp
      ultimately show ?thesis using less.prems(2) by simp
    next
      case (Continue p1 t1 c1)
      with null_step [where js = js and pN = pN and cN = cN] have t1: "t1 = None" and c1: "cN \<le> c1" by auto
      from jsmn_parse_step_pos [OF Continue] True have "pos pN \<le> pos p1" by simp
      with True have m: "length js - pos (p1 \<lparr> pos := Suc (pos p1) \<rparr>) < length js - pos pN"
        by auto
      from True less.prems(1) Continue t1
      have "jsmn_parse_loop js (p1 \<lparr> pos := Suc (pos p1) \<rparr>) None c1 = Some (n, p, t)"
        by (subst (asm) jsmn_parse_loop.simps) simp
      from less.hyps [OF m this less.prems(2)] c1 show ?thesis by simp
    next
      case Stuck
      with null_step [where js = js and pN = pN and cN = cN] show ?thesis by simp
    qed
  qed
qed

lemma loop_simulation:
  assumes "pos pN = pos pF" and "wf_tokens pF toks"
    and "jsmn_parse_loop js pN None cN = Some (n, pn, tn)" and "0 \<le> n" and "0 \<le> cF"
    and "int (toknext pF) + (n - cN) \<le> int (length toks)"
  shows "\<exists>r p t. jsmn_parse_loop js pF (Some toks) cF = Some (r, p, t)
           \<and> r \<noteq> JSMN_ERROR_NOMEM \<and> (0 \<le> r \<longrightarrow> r = cF + (n - cN))"
  using assms
proof (induction "length js - pos pN" arbitrary: pN pF toks cN cF rule: less_induct)
  case less
  note pos = less.prems(1) and wf = less.prems(2) and nul = less.prems(3)
    and n = less.prems(4) and cF = less.prems(5) and cap = less.prems(6)
  show ?case
  proof (cases "pos pN < length js \<and> js ! pos pN \<noteq> 0")
    case False
    with nul have "jsmn_parse_end pN None cN = (n, pn, tn)"
      by (subst (asm) jsmn_parse_loop.simps) simp
    then have "n = cN" by (simp add: jsmn_parse_end_def)
    moreover from False pos
    have "jsmn_parse_loop js pF (Some toks) cF = Some (jsmn_parse_end pF (Some toks) cF)"
      by (subst jsmn_parse_loop.simps) auto
    ultimately show ?thesis
      using cF by (auto simp: jsmn_parse_end_def JSMN_ERROR_PART_def JSMN_ERROR_NOMEM_def)
  next
    case True
    from step_simulation [where cN = cN and cF = cF and js = js, OF wf pos]
    have sim: "step_sim cN cF pF toks (jsmn_parse_step js pN None cN)
                 (jsmn_parse_step js pF (Some toks) cF)" .
    show ?thesis
    proof (cases "jsmn_parse_step js pN None cN")
      case Stuck
      with sim show ?thesis by (simp add: step_sim_def)
    next
      case (Return r p1 t1)
      with sim have "r < 0" by (simp add: step_sim_def)
      moreover from True nul Return have "n = r"
        by (subst (asm) jsmn_parse_loop.simps) simp
      ultimately show ?thesis using n by simp
    next
      case (Continue pN' tN' cN')
      with sim have tN': "tN' = None" and cN': "cN' = cN \<or> cN' = cN + 1"
        by (simp_all add: step_sim_def)
      from jsmn_parse_step_pos [OF Continue] True have "pos pN \<le> pos pN'" by simp
      with True have m: "length js - pos (pN' \<lparr> pos := Suc (pos pN') \<rparr>) < length js - pos pN"
        by auto
      from True nul Continue tN'
      have nul': "jsmn_parse_loop js (pN' \<lparr> pos := Suc (pos pN') \<rparr>) None cN' = Some (n, pn, tn)"
        by (subst (asm) jsmn_parse_loop.simps) simp
      from null_loop_ge [OF nul' n] have ge: "cN' \<le> n" .
      show ?thesis
      proof (cases "jsmn_parse_step js pF (Some toks) cF")
        case Stuck
        with sim Continue show ?thesis by (simp add: step_sim_def)
      next
        case ret: (Return r p1 t1)
        with sim Continue have r: "r < 0"
          and nomem: "r = JSMN_ERROR_NOMEM \<longrightarrow> cN' = cN + 1 \<and> length toks \<le> toknext pF"
          by (simp_all add: step_sim_def)
        from nomem ge cap have "r \<noteq> JSMN_ERROR_NOMEM" by auto
        moreover from True pos ret
        have "jsmn_parse_loop js pF (Some toks) cF = Some (r, p1, t1)"
          by (subst jsmn_parse_loop.simps) simp
        ultimately show ?thesis using r by simp
      next
        case cont: (Continue pF' tF' cF')
        with sim Continue obtain toks' where
          pos': "pos pF' = pos pN'" and cF': "cF' = cF + (cN' - cN)"
          and tF': "tF' = Some toks'" and len: "length toks' = length toks"
          and wf': "wf_tokens pF' toks'"
          and next': "int (toknext pF') = int (toknext pF) + (cN' - cN)"
          by (auto simp: step_sim_def)
        let ?pN = "pN' \<lparr> pos := Suc (pos pN') \<rparr>" and ?pF = "pF' \<lparr> pos := Suc (pos pF') \<rparr>"
        have p: "pos ?pN = pos ?pF" using pos' by simp
        have w: "wf_tokens ?pF toks'" using wf' by (simp add: wf_tokens_pos)
        have c: "0 \<le> cF'" using cF cF' cN' by auto
        have k: "int (toknext ?pF) + (n - cN') \<le> int (length toks')"
          using next' cap len by simp
        from less.hyps [OF m p w nul' n c k] obtain r p2 t2 where
          run: "jsmn_parse_loop js ?pF (Some toks') cF' = Some (r, p2, t2)"
          and r: "r \<noteq> JSMN_ERROR_NOMEM" "0 \<le> r \<longrightarrow> r = cF' + (n - cN')"
          by blast
        from True pos cont tF' run
        have "jsmn_parse_loop js pF (Some toks) cF = Some (r, p2, t2)"
          by (subst jsmn_parse_loop.simps) simp
        with r cF' show ?thesis by simp
      qed
    qed
  qed
qed

text \<open>
  C9, as stated: on every input the counting pass accepts, the filling pass over an array
  of exactly the counted size yields the same token count. The counting pass does not
  match brackets: on the one byte \<open>{\<close> it returns the count 1, and the filling pass
  over one token returns \<open>JSMN_ERROR_PART\<close>, not a count.
\<close>

theorem jsmn_unclosed_object_passes:
  "jsmn_parse \<lparr> pos = 0, toknext = 0, toksuper = 0 \<rparr> unclosed_object None =
     Some (1, \<lparr> pos = 1, toknext = 0, toksuper = 0 \<rparr>, None)
   \<and> map_option fst (jsmn_parse jsmn_init unclosed_object (Some (fresh_tokens 1))) =
       Some JSMN_ERROR_PART"
  by code_simp

text \<open>
  C9, amended: for every input on which the counting pass, run as \<open>cgltf_parse_json\<close>
  runs it, returns a count \<open>n\<close> that is not negative, the filling pass over any array
  of \<open>n\<close> tokens returns, never returns \<open>JSMN_ERROR_NOMEM\<close>, and returns \<open>n\<close>
  whenever it returns a count and no error.
\<close>

theorem jsmn_two_pass:
  assumes "jsmn_parse \<lparr> pos = 0, toknext = 0, toksuper = 0 \<rparr> js None = Some (n, pn, tn)"
    and "0 \<le> n" and "length toks = nat n"
  shows "\<exists>r p t. jsmn_parse jsmn_init js (Some toks) = Some (r, p, t)
           \<and> r \<noteq> JSMN_ERROR_NOMEM \<and> (0 \<le> r \<longrightarrow> r = n)"
proof -
  have wf: "wf_tokens jsmn_init toks" by (simp add: wf_tokens_def jsmn_init_def)
  have pos: "pos \<lparr> pos = 0, toknext = 0, toksuper = 0 \<rparr> = pos jsmn_init"
    by (simp add: jsmn_init_def)
  from assms(1) have nul:
    "jsmn_parse_loop js \<lparr> pos = 0, toknext = 0, toksuper = 0 \<rparr> None 0 = Some (n, pn, tn)"
    by (simp add: jsmn_parse_def)
  have cap: "int (toknext jsmn_init) + (n - 0) \<le> int (length toks)"
    using assms(2,3) by (simp add: jsmn_init_def)
  from loop_simulation [OF pos wf nul assms(2) _ cap, of 0]
  show ?thesis by (simp add: jsmn_parse_def jsmn_init_def)
qed

theorem jsmn_two_pass_witness:
  "jsmn_parse \<lparr> pos = 0, toknext = 0, toksuper = 0 \<rparr> (map of_char ''{\"asset\":{}}'') None =
     Some (3, \<lparr> pos = 12, toknext = 0, toksuper = - 1 \<rparr>, None)
   \<and> length (fresh_tokens 3) = nat 3
   \<and> map_option fst
       (jsmn_parse jsmn_init (map of_char ''{\"asset\":{}}'') (Some (fresh_tokens 3))) = Some 3"
proof -
  have count: "jsmn_parse \<lparr> pos = 0, toknext = 0, toksuper = 0 \<rparr>
                 (map of_char ''{\"asset\":{}}'') None =
               Some (3, \<lparr> pos = 12, toknext = 0, toksuper = - 1 \<rparr>, None)"
    by code_simp
  have len: "length (fresh_tokens 3) = nat 3" by (simp add: fresh_tokens_def)
  have no_error: "map_option (\<lambda>(r, p, t). 0 \<le> r)
        (jsmn_parse jsmn_init (map of_char ''{\"asset\":{}}'') (Some (fresh_tokens 3))) =
      Some True"
    by code_simp
  from jsmn_two_pass [OF count _ len] obtain r p t where
    "jsmn_parse jsmn_init (map of_char ''{\"asset\":{}}'') (Some (fresh_tokens 3)) =
       Some (r, p, t)" and "0 \<le> r \<longrightarrow> r = 3"
    by auto
  with no_error have "map_option fst
       (jsmn_parse jsmn_init (map of_char ''{\"asset\":{}}'') (Some (fresh_tokens 3))) = Some 3"
    by simp
  with count len show ?thesis by simp
qed

end
